theory Spec2Isabelle
  imports Main "HOL-Library.Word" "HOL-Library.Monad_Syntax"
begin

section \<open>Data model of \<open>src/kdumpfile/context.c\<close>\<close>

text \<open>
  Pointers are addresses; \<open>NULL\<close> is address 0. Every kind of object lives in a store of
  its own (a map from addresses to objects of that kind), so that a pointer of one C type
  is looked up in the store of that type. An operation returns \<open>None\<close> where the C program
  has undefined behaviour: a dereference of a pointer that is not live, a \<open>free\<close> of a
  non-null pointer that is not live, an array index out of range.

  The embedding is sequential: the calls that take and drop the reader/writer lock of the
  shared registry are left out.
\<close>

type_synonym addr = nat

abbreviation NULL :: addr where
  "NULL \<equiv> 0"

type_synonym byte = "8 word"

text \<open>The kinds of object, and the trace of objects created and destroyed.\<close>

datatype kind = K_ctx | K_xlatctx | K_shared | K_dict | K_xlat | K_buf

datatype event = Alloc kind addr | Free kind addr

text \<open>
  Modelled from the spec: the error channel \<open>kdump_errmsg_t\<close> (declared in
  \<open>kdumpfile-priv.h\<close>) is a message buffer of fixed capacity that is part of the context's
  own allocation.
\<close>

record kdump_errmsg =
  bufsz :: nat
  msg :: string

text \<open>
  \<open>kdump_ctx_t\<close> and \<open>struct kdump_shared\<close> are declared in \<open>kdumpfile-priv.h\<close>; the fields
  are the ones \<open>context.c\<close> reads and writes. The intrusive list \<open>shared->ctx\<close> is the list
  of the addresses of the attached contexts, in list order (\<open>list_add\<close> inserts at the
  head). The operation tables and the caches of the shared registry, which are null in
  every registry this file builds, are left out.
\<close>

record kdump_ctx =
  shared :: addr
  dict :: addr
  xlat :: addr
  xlatctx :: addr
  data :: "addr list"
  err :: kdump_errmsg

record kdump_shared =
  refcnt :: "64 word"
  ctx :: "addr list"
  per_ctx_size :: "nat list"

text \<open>
  Modelled from the spec: the translation domain \<open>struct kdump_xlat\<close> (a reference count
  and a list of attached contexts) and the attribute dictionary (a reference count, the
  registry it is bound to, and whether the default cache size has been set).
\<close>

record kdump_xlat =
  xlat_refcnt :: nat
  xlat_ctx :: "addr list"

record attr_dict =
  dict_refcnt :: nat
  dict_shared :: addr
  cache_size_set :: bool

text \<open>
  The whole state: the six stores, the outcomes of the allocations still to come
  (\<open>allocs\<close>: \<open>None\<close> is a failed allocation, \<open>Some p\<close> proposes the address \<open>p\<close>), the
  outcomes of the calls of \<open>rwlock_init\<close> still to come, and the trace.
\<close>

record state =
  ctxs :: "addr \<rightharpoonup> kdump_ctx"
  shareds :: "addr \<rightharpoonup> kdump_shared"
  dicts :: "addr \<rightharpoonup> attr_dict"
  xlats :: "addr \<rightharpoonup> kdump_xlat"
  xlatctxs :: "addr \<rightharpoonup> nat"
  bufs :: "addr \<rightharpoonup> byte option list"
  allocs :: "addr option list"
  rwlock_inits :: "bool list"
  trace :: "event list"

definition ERRBUF :: nat where
  "ERRBUF = 160"

datatype errno = EAGAIN | ENOMEM

section \<open>The allocator\<close>

text \<open>
  An allocation takes the next outcome. It fails (returns \<open>NULL\<close>) when no outcome is
  left, when the outcome is a failure, and when the proposed address is null or in use:
  an allocator never returns the address of a live object, but it may return an address
  that was freed before.
\<close>

definition pick :: "(addr \<Rightarrow> bool) \<Rightarrow> state \<Rightarrow> addr \<times> state" where
  "pick used st =
     (case allocs st of
        [] \<Rightarrow> (NULL, st)
      | None # rest \<Rightarrow> (NULL, st\<lparr>allocs := rest\<rparr>)
      | Some p # rest \<Rightarrow> (if p = NULL \<or> used p then NULL else p, st\<lparr>allocs := rest\<rparr>))"

text \<open>\<open>malloc(sz)\<close>: a new buffer of \<open>sz\<close> bytes with indeterminate contents (\<open>None\<close>).\<close>

definition malloc :: "nat \<Rightarrow> state \<Rightarrow> addr \<times> state" where
  "malloc sz st =
     (case pick (\<lambda>a. bufs st a \<noteq> None) st of (p, st1) \<Rightarrow>
        if p = NULL then (NULL, st1)
        else (p, st1\<lparr>bufs := (bufs st1)(p \<mapsto> replicate sz None),
                      trace := trace st1 @ [Alloc K_buf p]\<rparr>))"

text \<open>\<open>free(p)\<close>: nothing for a null pointer, undefined for a pointer that is not live.\<close>

definition free :: "addr \<Rightarrow> state \<Rightarrow> state option" where
  "free p st =
     (if p = NULL then Some st
      else case bufs st p of
        None \<Rightarrow> None
      | Some b \<Rightarrow> Some (st\<lparr>bufs := (bufs st)(p := None),
                            trace := trace st @ [Free K_buf p]\<rparr>))"

text \<open>
  \<open>calloc(1, sizeof (kdump_ctx_t) + ERRBUF)\<close>: a zeroed context; \<open>n\<close> is \<open>PER_CTX_SLOTS\<close>,
  the length of the array \<open>data\<close>. \<open>PER_CTX_SLOTS\<close> is defined in \<open>kdumpfile-priv.h\<close>; it is
  a parameter of every function that depends on it.
\<close>

definition zero_ctx :: "nat \<Rightarrow> kdump_ctx" where
  "zero_ctx n = \<lparr>shared = NULL, dict = NULL, xlat = NULL, xlatctx = NULL,
                 data = replicate n NULL, err = \<lparr>bufsz = 0, msg = []\<rparr>\<rparr>"

definition calloc_ctx :: "nat \<Rightarrow> state \<Rightarrow> addr \<times> state" where
  "calloc_ctx n st =
     (case pick (\<lambda>a. ctxs st a \<noteq> None) st of (c, st1) \<Rightarrow>
        if c = NULL then (NULL, st1)
        else (c, st1\<lparr>ctxs := (ctxs st1)(c \<mapsto> zero_ctx n),
                      trace := trace st1 @ [Alloc K_ctx c]\<rparr>))"

definition free_ctx :: "addr \<Rightarrow> state \<Rightarrow> state option" where
  "free_ctx c st =
     (case ctxs st c of
        None \<Rightarrow> None
      | Some x \<Rightarrow> Some (st\<lparr>ctxs := (ctxs st)(c := None),
                            trace := trace st @ [Free K_ctx c]\<rparr>))"

text \<open>\<open>calloc(1, sizeof *shared)\<close>: a zeroed registry.\<close>

definition calloc_shared :: "nat \<Rightarrow> state \<Rightarrow> addr \<times> state" where
  "calloc_shared n st =
     (case pick (\<lambda>a. shareds st a \<noteq> None) st of (s, st1) \<Rightarrow>
        if s = NULL then (NULL, st1)
        else (s, st1\<lparr>shareds := (shareds st1)
                        (s \<mapsto> \<lparr>refcnt = 0, ctx = [], per_ctx_size = replicate n 0\<rparr>),
                      trace := trace st1 @ [Alloc K_shared s]\<rparr>))"

definition free_shared :: "addr \<Rightarrow> state \<Rightarrow> state option" where
  "free_shared s st =
     (case shareds st s of
        None \<Rightarrow> None
      | Some x \<Rightarrow> Some (st\<lparr>shareds := (shareds st)(s := None),
                            trace := trace st @ [Free K_shared s]\<rparr>))"

text \<open>\<open>rwlock_init\<close> returns nonzero on failure; \<open>True\<close> is success.\<close>

definition rwlock_init :: "state \<Rightarrow> bool \<times> state" where
  "rwlock_init st =
     (case rwlock_inits st of
        [] \<Rightarrow> (False, st)
      | ok # rest \<Rightarrow> (ok, st\<lparr>rwlock_inits := rest\<rparr>))"

section \<open>Accessors of the stores\<close>

definition upd_ctx :: "addr \<Rightarrow> (kdump_ctx \<Rightarrow> kdump_ctx) \<Rightarrow> state \<Rightarrow> state option" where
  "upd_ctx c f st =
     (case ctxs st c of
        None \<Rightarrow> None
      | Some x \<Rightarrow> Some (st\<lparr>ctxs := (ctxs st)(c \<mapsto> f x)\<rparr>))"

definition upd_shared :: "addr \<Rightarrow> (kdump_shared \<Rightarrow> kdump_shared) \<Rightarrow> state \<Rightarrow> state option" where
  "upd_shared s f st =
     (case shareds st s of
        None \<Rightarrow> None
      | Some x \<Rightarrow> Some (st\<lparr>shareds := (shareds st)(s \<mapsto> f x)\<rparr>))"

text \<open>\<open>ctx->data[slot] = p\<close>.\<close>

definition set_data :: "addr \<Rightarrow> nat \<Rightarrow> addr \<Rightarrow> state \<Rightarrow> state option" where
  "set_data c slot p st =
     (case ctxs st c of
        None \<Rightarrow> None
      | Some x \<Rightarrow>
          if slot < length (data x)
          then Some (st\<lparr>ctxs := (ctxs st)(c \<mapsto> x\<lparr>data := (data x)[slot := p]\<rparr>)\<rparr>)
          else None)"

text \<open>\<open>ctx->data[slot]\<close>.\<close>

definition get_data :: "addr \<Rightarrow> nat \<Rightarrow> state \<Rightarrow> addr option" where
  "get_data c slot st =
     (case ctxs st c of
        None \<Rightarrow> None
      | Some x \<Rightarrow> if slot < length (data x) then Some (data x ! slot) else None)"

text \<open>\<open>shared->per_ctx_size[slot] = sz\<close>.\<close>

definition set_size :: "addr \<Rightarrow> nat \<Rightarrow> nat \<Rightarrow> state \<Rightarrow> state option" where
  "set_size s slot sz st =
     (case shareds st s of
        None \<Rightarrow> None
      | Some x \<Rightarrow>
          if slot < length (per_ctx_size x)
          then Some (st\<lparr>shareds := (shareds st)
                          (s \<mapsto> x\<lparr>per_ctx_size := (per_ctx_size x)[slot := sz]\<rparr>)\<rparr>)
          else None)"

section \<open>The per-context slot allocator\<close>

text \<open>
  The search of \<open>per_ctx_alloc\<close>:
  \<open>for (slot = 0; slot < PER_CTX_SLOTS; ++slot) if (!shared->per_ctx_size[slot]) break;\<close>
  The result is the value of \<open>slot\<close> after the loop.
\<close>

function slot_scan :: "nat \<Rightarrow> nat list \<Rightarrow> nat \<Rightarrow> nat" where
  "slot_scan n sizes slot =
     (if slot < n then (if sizes ! slot = 0 then slot else slot_scan n sizes (Suc slot))
      else slot)"
  by pat_completeness auto
termination
  by (relation "measure (\<lambda>(n, sizes, slot). n - slot)") auto

declare slot_scan.simps [simp del]

text \<open>
  The unwinding of \<open>per_ctx_alloc\<close>: from the context whose allocation failed, walk
  \<open>list.prev\<close> back to the list head and free \<open>data[slot]\<close> of each context passed.
  \<open>prev\<close> holds the contexts visited before, the latest first.
\<close>

fun free_prev :: "nat \<Rightarrow> addr list \<Rightarrow> state \<Rightarrow> state option" where
  "free_prev slot [] st = Some st"
| "free_prev slot (c # prev) st =
     do { p \<leftarrow> get_data c slot st;
          st1 \<leftarrow> free p st;
          free_prev slot prev st1 }"

text \<open>
  The allocation loop of \<open>per_ctx_alloc\<close> over the list of attached contexts. The pointer
  returned by \<open>malloc\<close> is stored in \<open>data[slot]\<close> before it is tested.
\<close>

fun alloc_loop ::
  "addr \<Rightarrow> nat \<Rightarrow> nat \<Rightarrow> addr list \<Rightarrow> addr list \<Rightarrow> state \<Rightarrow> ((errno + nat) \<times> state) option"
where
  "alloc_loop sh slot sz prev [] st = Some (Inr slot, st)"
| "alloc_loop sh slot sz prev (c # rest) st =
     (case malloc sz st of (p, st1) \<Rightarrow>
        do { st2 \<leftarrow> set_data c slot p st1;
             if p = NULL
             then do { st3 \<leftarrow> free_prev slot prev st2;
                       st4 \<leftarrow> set_size sh slot 0 st3;
                       Some (Inl ENOMEM, st4) }
             else alloc_loop sh slot sz (c # prev) rest st2 })"

text \<open>
  \<open>per_ctx_alloc(shared, sz)\<close>. \<open>Inr slot\<close> is the slot number returned; \<open>Inl e\<close> is the
  return value -1 with \<open>errno\<close> equal to \<open>e\<close>.
\<close>

definition per_ctx_alloc ::
  "nat \<Rightarrow> addr \<Rightarrow> nat \<Rightarrow> state \<Rightarrow> ((errno + nat) \<times> state) option"
where
  "per_ctx_alloc n sh sz st =
     do { s \<leftarrow> shareds st sh;
          let slot = slot_scan n (per_ctx_size s) 0 in
          if slot \<ge> n then Some (Inl EAGAIN, st)
          else do { st1 \<leftarrow> set_size sh slot sz st;
                    alloc_loop sh slot sz [] (ctx s) st1 } }"

text \<open>The loop of \<open>per_ctx_free\<close>: \<open>free(ctx->data[slot])\<close> for every attached context.\<close>

fun free_all :: "nat \<Rightarrow> addr list \<Rightarrow> state \<Rightarrow> state option" where
  "free_all slot [] st = Some st"
| "free_all slot (c # rest) st =
     do { p \<leftarrow> get_data c slot st;
          st1 \<leftarrow> free p st;
          free_all slot rest st1 }"

text \<open>\<open>per_ctx_free(shared, slot)\<close>; \<open>slot\<close> is a C \<open>int\<close>.\<close>

definition per_ctx_free :: "nat \<Rightarrow> addr \<Rightarrow> int \<Rightarrow> state \<Rightarrow> state option" where
  "per_ctx_free n sh slot st =
     do { s \<leftarrow> shareds st sh;
          if slot < 0 \<or> int n \<le> slot then None
          else do { st1 \<leftarrow> free_all (nat slot) (ctx s) st;
                    set_size sh (nat slot) 0 st1 } }"

section \<open>Collaborators\<close>

text \<open>
  Modelled from the spec: \<open>err_init\<close> and \<open>err_cleanup\<close> of the error channel, which are
  not in \<open>context.c\<close>. The channel has a fixed capacity and owns no storage besides the
  context's own allocation: \<open>err_init\<close> sets the capacity and the empty message,
  \<open>err_cleanup\<close> drops the message.
\<close>

definition err_init :: "addr \<Rightarrow> nat \<Rightarrow> state \<Rightarrow> state option" where
  "err_init c sz st = upd_ctx c (\<lambda>x. x\<lparr>err := \<lparr>bufsz = sz, msg = []\<rparr>\<rparr>) st"

definition err_cleanup :: "addr \<Rightarrow> state \<Rightarrow> state option" where
  "err_cleanup c st = upd_ctx c (\<lambda>x. x\<lparr>err := (err x)\<lparr>msg := []\<rparr>\<rparr>) st"

text \<open>
  Modelled from the spec: the translation coordinate-system handle, created by
  \<open>init_addrxlat\<close> and released by \<open>addrxlat_ctx_decref\<close> (neither is in \<open>context.c\<close>). It is
  an object with a reference count, created with count 1 and destroyed when the count
  drops to zero.
\<close>

definition init_addrxlat :: "addr \<Rightarrow> state \<Rightarrow> addr \<times> state" where
  "init_addrxlat c st =
     (case pick (\<lambda>a. xlatctxs st a \<noteq> None) st of (x, st1) \<Rightarrow>
        if x = NULL then (NULL, st1)
        else (x, st1\<lparr>xlatctxs := (xlatctxs st1)(x \<mapsto> 1),
                      trace := trace st1 @ [Alloc K_xlatctx x]\<rparr>))"

definition addrxlat_ctx_decref :: "addr \<Rightarrow> state \<Rightarrow> state option" where
  "addrxlat_ctx_decref x st =
     (case xlatctxs st x of
        None \<Rightarrow> None
      | Some r \<Rightarrow>
          if r \<le> 1
          then Some (st\<lparr>xlatctxs := (xlatctxs st)(x := None),
                        trace := trace st @ [Free K_xlatctx x]\<rparr>)
          else Some (st\<lparr>xlatctxs := (xlatctxs st)(x \<mapsto> r - 1)\<rparr>))"

text \<open>
  Modelled from the spec: the attribute dictionary (\<open>attr_dict_new\<close>, \<open>attr_dict_incref\<close>,
  \<open>attr_dict_decref\<close>, and \<open>set_attr_number\<close> for the default cache size; none is in
  \<open>context.c\<close>): an object with a reference count, created with count 1, bound to the
  registry it is created for.
\<close>

definition attr_dict_new :: "addr \<Rightarrow> state \<Rightarrow> addr \<times> state" where
  "attr_dict_new s st =
     (case pick (\<lambda>a. dicts st a \<noteq> None) st of (d, st1) \<Rightarrow>
        if d = NULL then (NULL, st1)
        else (d, st1\<lparr>dicts := (dicts st1)
                        (d \<mapsto> \<lparr>dict_refcnt = 1, dict_shared = s, cache_size_set = False\<rparr>),
                      trace := trace st1 @ [Alloc K_dict d]\<rparr>))"

definition attr_dict_incref :: "addr \<Rightarrow> state \<Rightarrow> state option" where
  "attr_dict_incref d st =
     (case dicts st d of
        None \<Rightarrow> None
      | Some x \<Rightarrow> Some (st\<lparr>dicts := (dicts st)(d \<mapsto> x\<lparr>dict_refcnt := dict_refcnt x + 1\<rparr>)\<rparr>))"

definition attr_dict_decref :: "addr \<Rightarrow> state \<Rightarrow> state option" where
  "attr_dict_decref d st =
     (case dicts st d of
        None \<Rightarrow> None
      | Some x \<Rightarrow>
          if dict_refcnt x \<le> 1
          then Some (st\<lparr>dicts := (dicts st)(d := None),
                        trace := trace st @ [Free K_dict d]\<rparr>)
          else Some (st\<lparr>dicts := (dicts st)(d \<mapsto> x\<lparr>dict_refcnt := dict_refcnt x - 1\<rparr>)\<rparr>))"

definition set_attr_number_cache_size :: "addr \<Rightarrow> state \<Rightarrow> state option" where
  "set_attr_number_cache_size c st =
     do { x \<leftarrow> ctxs st c;
          d \<leftarrow> dicts st (dict x);
          Some (st\<lparr>dicts := (dicts st)(dict x \<mapsto> d\<lparr>cache_size_set := True\<rparr>)\<rparr>) }"

text \<open>
  Modelled from the spec: the translation domain (\<open>xlat_new\<close>, \<open>xlat_incref\<close>,
  \<open>xlat_decref\<close>; none is in \<open>context.c\<close>): an object with a reference count, created with
  count 1 and an empty list of contexts.
\<close>

definition xlat_new :: "state \<Rightarrow> addr \<times> state" where
  "xlat_new st =
     (case pick (\<lambda>a. xlats st a \<noteq> None) st of (x, st1) \<Rightarrow>
        if x = NULL then (NULL, st1)
        else (x, st1\<lparr>xlats := (xlats st1)(x \<mapsto> \<lparr>xlat_refcnt = 1, xlat_ctx = []\<rparr>),
                      trace := trace st1 @ [Alloc K_xlat x]\<rparr>))"

definition xlat_incref :: "addr \<Rightarrow> state \<Rightarrow> state option" where
  "xlat_incref x st =
     (case xlats st x of
        None \<Rightarrow> None
      | Some y \<Rightarrow> Some (st\<lparr>xlats := (xlats st)(x \<mapsto> y\<lparr>xlat_refcnt := xlat_refcnt y + 1\<rparr>)\<rparr>))"


text \<open>
  \<open>list_add(&ctx->list, &shared->ctx)\<close> and \<open>list_add(&ctx->xlat_list, &xlat->ctx)\<close>: the
  context becomes the first entry of the list.
\<close>

definition list_add_shared :: "addr \<Rightarrow> addr \<Rightarrow> state \<Rightarrow> state option" where
  "list_add_shared c s st = upd_shared s (\<lambda>x. x\<lparr>ctx := c # ctx x\<rparr>) st"

definition list_add_xlat :: "addr \<Rightarrow> addr \<Rightarrow> state \<Rightarrow> state option" where
  "list_add_xlat c x st =
     (case xlats st x of
        None \<Rightarrow> None
      | Some y \<Rightarrow> Some (st\<lparr>xlats := (xlats st)(x \<mapsto> y\<lparr>xlat_ctx := c # xlat_ctx y\<rparr>)\<rparr>))"

section \<open>The shared registry\<close>

text \<open>\<open>alloc_ctx\<close>. The result of \<open>init_addrxlat\<close> is stored before it is tested.\<close>

definition alloc_ctx :: "nat \<Rightarrow> state \<Rightarrow> (addr \<times> state) option" where
  "alloc_ctx n st =
     (case calloc_ctx n st of (c, st1) \<Rightarrow>
        if c = NULL then Some (NULL, st1)
        else do { st2 \<leftarrow> err_init c ERRBUF st1;
                  case init_addrxlat c st2 of (x, st3) \<Rightarrow>
                    do { st4 \<leftarrow> upd_ctx c (\<lambda>y. y\<lparr>xlatctx := x\<rparr>) st3;
                         if x = NULL
                         then do { st5 \<leftarrow> err_cleanup c st4;
                                   st6 \<leftarrow> free_ctx c st5;
                                   Some (NULL, st6) }
                         else Some (c, st4) } })"

text \<open>\<open>alloc_shared\<close>: \<open>list_init\<close>, then \<open>rwlock_init\<close>, then the reference count 1.\<close>

definition alloc_shared :: "nat \<Rightarrow> state \<Rightarrow> (addr \<times> state) option" where
  "alloc_shared n st =
     (case calloc_shared n st of (s, st1) \<Rightarrow>
        if s = NULL then Some (NULL, st1)
        else do { st2 \<leftarrow> upd_shared s (\<lambda>y. y\<lparr>ctx := []\<rparr>) st1;
                  case rwlock_init st2 of (ok, st3) \<Rightarrow>
                    if \<not> ok
                    then do { st4 \<leftarrow> free_shared s st3; Some (NULL, st4) }
                    else do { st4 \<leftarrow> upd_shared s (\<lambda>y. y\<lparr>refcnt := 1\<rparr>) st3;
                              Some (s, st4) } })"

text \<open>
  \<open>shared_free\<close>: the cleanup hooks and the caches are null in every registry built
  here; what is left is \<open>free(shared)\<close>.
\<close>

definition shared_free :: "addr \<Rightarrow> state \<Rightarrow> state option" where
  "shared_free s st = free_shared s st"

text \<open>
  Modelled from the spec: \<open>shared_incref_locked\<close> and \<open>shared_decref_locked\<close>, which are
  declared in \<open>kdumpfile-priv.h\<close>: the increment and the decrement of the reference count,
  returning the new count; a decrement to zero tears the registry down and frees it.
\<close>

definition shared_incref_locked :: "addr \<Rightarrow> state \<Rightarrow> (64 word \<times> state) option" where
  "shared_incref_locked s st =
     do { x \<leftarrow> shareds st s;
          st1 \<leftarrow> upd_shared s (\<lambda>y. y\<lparr>refcnt := refcnt y + 1\<rparr>) st;
          Some (refcnt x + 1, st1) }"

definition shared_decref_locked :: "addr \<Rightarrow> state \<Rightarrow> (64 word \<times> state) option" where
  "shared_decref_locked s st =
     do { x \<leftarrow> shareds st s;
          st1 \<leftarrow> upd_shared s (\<lambda>y. y\<lparr>refcnt := refcnt y - 1\<rparr>) st;
          if refcnt x - 1 = 0
          then do { st2 \<leftarrow> shared_free s st1; Some (0, st2) }
          else Some (refcnt x - 1, st1) }"


definition shared_decref :: "addr \<Rightarrow> state \<Rightarrow> (64 word \<times> state) option" where
  "shared_decref s st = shared_decref_locked s st"

section \<open>Creating and cloning a context\<close>

text \<open>The labels \<open>err\<close>, \<open>err_dict\<close> and \<open>err_xlat\<close> of \<open>kdump_new\<close>; each falls through to the next.\<close>

definition kdump_new_err :: "addr \<Rightarrow> state \<Rightarrow> (addr \<times> state) option" where
  "kdump_new_err c st =
     do { x \<leftarrow> ctxs st c;
          st1 \<leftarrow> addrxlat_ctx_decref (xlatctx x) st;
          st2 \<leftarrow> free_ctx c st1;
          Some (NULL, st2) }"

definition kdump_new_err_dict :: "addr \<Rightarrow> state \<Rightarrow> (addr \<times> state) option" where
  "kdump_new_err_dict c st =
     do { x \<leftarrow> ctxs st c;
          (r, st1) \<leftarrow> shared_decref (shared x) st;
          kdump_new_err c st1 }"

definition kdump_new_err_xlat :: "addr \<Rightarrow> state \<Rightarrow> (addr \<times> state) option" where
  "kdump_new_err_xlat c st =
     do { x \<leftarrow> ctxs st c;
          st1 \<leftarrow> attr_dict_decref (dict x) st;
          kdump_new_err_dict c st1 }"

text \<open>\<open>kdump_new\<close>; the result is the new context, or \<open>NULL\<close>.\<close>

definition kdump_new :: "nat \<Rightarrow> state \<Rightarrow> (addr \<times> state) option" where
  "kdump_new n st =
     do { (c, st1) \<leftarrow> alloc_ctx n st;
          if c = NULL then Some (NULL, st1)
          else do {
            (s, st2) \<leftarrow> alloc_shared n st1;
            st3 \<leftarrow> upd_ctx c (\<lambda>y. y\<lparr>shared := s\<rparr>) st2;
            if s = NULL then kdump_new_err c st3
            else do {
              st4 \<leftarrow> list_add_shared c s st3;
              case attr_dict_new s st4 of (d, st5) \<Rightarrow> do {
                st6 \<leftarrow> upd_ctx c (\<lambda>y. y\<lparr>dict := d\<rparr>) st5;
                if d = NULL then kdump_new_err_dict c st6
                else case xlat_new st6 of (x, st7) \<Rightarrow> do {
                  st8 \<leftarrow> upd_ctx c (\<lambda>y. y\<lparr>xlat := x\<rparr>) st7;
                  if x = NULL then kdump_new_err_xlat c st8
                  else do {
                    st9 \<leftarrow> list_add_xlat c x st8;
                    st10 \<leftarrow> set_attr_number_cache_size c st9;
                    Some (c, st10) } } } } } }"

text \<open>
  The unwinding of \<open>kdump_clone\<close>:
  \<open>while (slot-- > 0) if (orig->shared->per_ctx_size[slot]) free(ctx->data[slot]);\<close>
\<close>

fun clone_unwind :: "nat list \<Rightarrow> addr \<Rightarrow> nat \<Rightarrow> state \<Rightarrow> state option" where
  "clone_unwind sizes c 0 st = Some st"
| "clone_unwind sizes c (Suc slot) st =
     (if sizes ! slot \<noteq> 0
      then do { p \<leftarrow> get_data c slot st;
                st1 \<leftarrow> free p st;
                clone_unwind sizes c slot st1 }
      else clone_unwind sizes c slot st)"

text \<open>
  The slot loop of \<open>kdump_clone\<close>, from \<open>slot\<close> on; \<open>sizes\<close> is
  \<open>orig->shared->per_ctx_size\<close>, which the loop only reads. The result is \<open>False\<close> when an
  allocation failed and the buffers of the earlier slots have been freed.
\<close>

function clone_slots ::
  "nat \<Rightarrow> nat list \<Rightarrow> addr \<Rightarrow> nat \<Rightarrow> state \<Rightarrow> (bool \<times> state) option"
where
  "clone_slots n sizes c slot st =
     (if slot < n
      then (if sizes ! slot = 0 then clone_slots n sizes c (Suc slot) st
            else case malloc (sizes ! slot) st of (p, st1) \<Rightarrow>
              do { st2 \<leftarrow> set_data c slot p st1;
                   if p = NULL
                   then do { st3 \<leftarrow> clone_unwind sizes c slot st2; Some (False, st3) }
                   else clone_slots n sizes c (Suc slot) st2 })
      else Some (True, st))"
  by pat_completeness auto
termination
  by (relation "measure (\<lambda>(n, sizes, c, slot, st). n - slot)") auto

declare clone_slots.simps [simp del]

text \<open>\<open>kdump_clone(orig)\<close>; the result is the new context, or \<open>NULL\<close>.\<close>

definition kdump_clone :: "nat \<Rightarrow> addr \<Rightarrow> state \<Rightarrow> (addr \<times> state) option" where
  "kdump_clone n orig st =
     do { (c, st1) \<leftarrow> alloc_ctx n st;
          if c = NULL then Some (NULL, st1)
          else do {
            og \<leftarrow> ctxs st1 orig;
            s \<leftarrow> shareds st1 (shared og);
            (ok, st2) \<leftarrow> clone_slots n (per_ctx_size s) c 0 st1;
            if \<not> ok
            then do { x \<leftarrow> ctxs st2 c;
                      st3 \<leftarrow> addrxlat_ctx_decref (xlatctx x) st2;
                      st4 \<leftarrow> free_ctx c st3;
                      Some (NULL, st4) }
            else do {
              st3 \<leftarrow> upd_ctx c (\<lambda>y. y\<lparr>shared := shared og\<rparr>) st2;
              (r, st4) \<leftarrow> shared_incref_locked (shared og) st3;
              st5 \<leftarrow> list_add_shared c (shared og) st4;
              st6 \<leftarrow> upd_ctx c (\<lambda>y. y\<lparr>dict := dict og\<rparr>) st5;
              st7 \<leftarrow> attr_dict_incref (dict og) st6;
              st8 \<leftarrow> upd_ctx c (\<lambda>y. y\<lparr>xlat := xlat og\<rparr>) st7;
              st9 \<leftarrow> xlat_incref (xlat og) st8;
              st10 \<leftarrow> list_add_xlat c (xlat og) st9;
              Some (c, st10) } } }"

section \<open>Destroying a context\<close>





section \<open>Sequences of operations on references\<close>







section \<open>Status codes\<close>

text \<open>
  \<open>kdump_status\<close> is an enumeration declared in \<open>kdumpfile.h\<close>. \<open>KDUMP_other v\<close> stands for a
  value of the type that is none of the ten enumerators.
\<close>

datatype kdump_status =
    KDUMP_OK
  | KDUMP_ERR_SYSTEM
  | KDUMP_ERR_NOTIMPL
  | KDUMP_ERR_NODATA
  | KDUMP_ERR_CORRUPT
  | KDUMP_ERR_INVALID
  | KDUMP_ERR_NOKEY
  | KDUMP_ERR_EOF
  | KDUMP_ERR_BUSY
  | KDUMP_ERR_ADDRXLAT
  | KDUMP_other int

fun kdump_strerror :: "kdump_status \<Rightarrow> string" where
  "kdump_strerror KDUMP_OK = ''Success''"
| "kdump_strerror KDUMP_ERR_SYSTEM = ''OS error''"
| "kdump_strerror KDUMP_ERR_NOTIMPL = ''Unimplemented feature''"
| "kdump_strerror KDUMP_ERR_NODATA = ''Data is not stored in the dump file''"
| "kdump_strerror KDUMP_ERR_CORRUPT = ''Corrupted file data''"
| "kdump_strerror KDUMP_ERR_INVALID = ''Invalid value''"
| "kdump_strerror KDUMP_ERR_NOKEY = ''No such attribute key''"
| "kdump_strerror KDUMP_ERR_EOF = ''Unexpected EOF''"
| "kdump_strerror KDUMP_ERR_BUSY = ''Too many pending requests''"
| "kdump_strerror KDUMP_ERR_ADDRXLAT = ''Address translation error''"
| "kdump_strerror (KDUMP_other v) = ''Unknown error''"

section \<open>Predicates on states\<close>

text \<open>The non-null pointers that the contexts \<open>cs\<close> hold at index \<open>slot\<close>.\<close>

definition slot_ptrs :: "nat \<Rightarrow> addr list \<Rightarrow> state \<Rightarrow> addr set" where
  "slot_ptrs slot cs st = {p. p \<noteq> NULL \<and> (\<exists>c\<in>set cs. get_data c slot st = Some p)}"

text \<open>
  The contexts \<open>cs\<close> are pairwise different and live, index \<open>slot\<close> is within their arrays,
  and what they hold at \<open>slot\<close> can be freed: each pointer is null or a live buffer, and
  no live buffer is held twice.
\<close>

definition freeable :: "nat \<Rightarrow> addr list \<Rightarrow> state \<Rightarrow> bool" where
  "freeable slot cs st \<longleftrightarrow>
     distinct cs \<and>
     (\<forall>c\<in>set cs. \<exists>q. get_data c slot st = Some q \<and> (q = NULL \<or> bufs st q \<noteq> None)) \<and>
     (\<forall>c\<in>set cs. \<forall>c'\<in>set cs. c \<noteq> c' \<longrightarrow> get_data c slot st = get_data c' slot st \<longrightarrow>
        get_data c slot st = Some NULL)"

text \<open>
  The state of the allocation loop of \<open>per_ctx_alloc\<close>: the contexts \<open>prev\<close> have been
  given a buffer at \<open>slot\<close>, each its own; the contexts \<open>cs\<close> are still to come.
\<close>

definition loop_ok :: "addr \<Rightarrow> nat \<Rightarrow> addr list \<Rightarrow> addr list \<Rightarrow> state \<Rightarrow> bool" where
  "loop_ok sh slot prev cs st \<longleftrightarrow>
     distinct (prev @ cs) \<and>
     (\<forall>c\<in>set prev. \<exists>q. get_data c slot st = Some q \<and> q \<noteq> NULL \<and> bufs st q \<noteq> None) \<and>
     (\<forall>c\<in>set prev. \<forall>c'\<in>set prev. c \<noteq> c' \<longrightarrow> get_data c slot st \<noteq> get_data c' slot st) \<and>
     (\<forall>c\<in>set cs. get_data c slot st \<noteq> None) \<and>
     (\<exists>s. shareds st sh = Some s \<and> slot < length (per_ctx_size s))"

text \<open>
  The registry \<open>sh\<close> is live, its size table has \<open>n\<close> entries, and the contexts on its
  list are pairwise different, live, and have \<open>n\<close> slot pointers each.
\<close>

definition registry_ok :: "nat \<Rightarrow> addr \<Rightarrow> state \<Rightarrow> bool" where
  "registry_ok n sh st \<longleftrightarrow>
     (\<exists>s. shareds st sh = Some s \<and> length (per_ctx_size s) = n \<and> distinct (ctx s) \<and>
        (\<forall>c\<in>set (ctx s). \<exists>x. ctxs st c = Some x \<and> length (data x) = n))"

text \<open>
  The state of the slot loop of \<open>kdump_clone\<close> at index \<open>slot\<close>: the new context \<open>c\<close> is
  live with \<open>n\<close> slot pointers, and at every used index below \<open>slot\<close> it holds a live
  buffer, no two the same. \<open>clone_ptrs\<close> are those buffers.
\<close>

definition clone_ptrs :: "nat list \<Rightarrow> addr \<Rightarrow> nat \<Rightarrow> state \<Rightarrow> addr set" where
  "clone_ptrs sizes c slot st =
     {p. p \<noteq> NULL \<and> (\<exists>j < slot. sizes ! j \<noteq> 0 \<and> get_data c j st = Some p)}"

definition clone_ok :: "nat \<Rightarrow> nat list \<Rightarrow> addr \<Rightarrow> nat \<Rightarrow> state \<Rightarrow> bool" where
  "clone_ok n sizes c slot st \<longleftrightarrow>
     slot \<le> n \<and>
     (\<exists>x. ctxs st c = Some x \<and> length (data x) = n \<and>
        (\<forall>j < slot. sizes ! j \<noteq> 0 \<longrightarrow> data x ! j \<noteq> NULL \<and> bufs st (data x ! j) \<noteq> None) \<and>
        (\<forall>i < slot. \<forall>j < slot. i \<noteq> j \<longrightarrow> sizes ! i \<noteq> 0 \<longrightarrow> sizes ! j \<noteq> 0 \<longrightarrow>
           data x ! i \<noteq> data x ! j))"

text \<open>
  Well-formed stores: no registry at the null address; the size table of every registry
  has \<open>n\<close> entries; the contexts on its list are pairwise different, live, and point
  back to it; every context has \<open>n\<close> slot pointers and live registry, dictionary and
  translation domain.
\<close>

definition wf_lists :: "nat \<Rightarrow> state \<Rightarrow> bool" where
  "wf_lists n st \<longleftrightarrow>
     shareds st NULL = None \<and>
     (\<forall>sh s. shareds st sh = Some s \<longrightarrow>
        length (per_ctx_size s) = n \<and> distinct (ctx s) \<and>
        (\<forall>c\<in>set (ctx s). \<exists>x. ctxs st c = Some x \<and> shared x = sh)) \<and>
     (\<forall>c x. ctxs st c = Some x \<longrightarrow>
        length (data x) = n \<and> shareds st (shared x) \<noteq> None \<and>
        dicts st (dict x) \<noteq> None \<and> xlats st (xlat x) \<noteq> None)"

text \<open>
  Every attached context holds, at every slot index whose entry of the size table is
  nonzero, a non-null pointer to a live buffer of the recorded size.
\<close>

definition holds_buffers :: "nat \<Rightarrow> state \<Rightarrow> bool" where
  "holds_buffers n st \<longleftrightarrow>
     (\<forall>sh s c i. shareds st sh = Some s \<longrightarrow> c \<in> set (ctx s) \<longrightarrow> i < n \<longrightarrow>
        per_ctx_size s ! i \<noteq> 0 \<longrightarrow>
        (\<exists>q b. get_data c i st = Some q \<and> q \<noteq> NULL \<and> bufs st q = Some b \<and>
               length b = per_ctx_size s ! i))"

text \<open>
  The size recorded for slot \<open>i\<close> of context \<open>c\<close>: the entry of the registry that \<open>c\<close>
  points to and is attached to; 0 when there is none.
\<close>

definition slot_size :: "state \<Rightarrow> addr \<Rightarrow> nat \<Rightarrow> nat" where
  "slot_size st c i =
     (case ctxs st c of
        None \<Rightarrow> 0
      | Some x \<Rightarrow>
          (case shareds st (shared x) of
             None \<Rightarrow> 0
           | Some s \<Rightarrow> if c \<in> set (ctx s) then per_ctx_size s ! i else 0))"

text \<open>
  The invariant of the slot allocator: the stores are well formed; at every slot with a
  nonzero recorded size the context holds a non-null pointer to a live buffer of that
  size; and no buffer is held at two such slots.
\<close>

definition slots_inv :: "nat \<Rightarrow> state \<Rightarrow> bool" where
  "slots_inv n st \<longleftrightarrow>
     wf_lists n st \<and>
     (\<forall>c i. i < n \<longrightarrow> slot_size st c i \<noteq> 0 \<longrightarrow>
        (\<exists>q b. get_data c i st = Some q \<and> q \<noteq> NULL \<and> bufs st q = Some b \<and>
               length b = slot_size st c i)) \<and>
     (\<forall>c i c' i'. i < n \<longrightarrow> i' < n \<longrightarrow> slot_size st c i \<noteq> 0 \<longrightarrow> slot_size st c' i' \<noteq> 0 \<longrightarrow>
        get_data c i st = get_data c' i' st \<longrightarrow> c = c' \<and> i = i')"

text \<open>
  The operations on contexts and slots, as a client calls them one after the other. The
  results (a context or \<open>NULL\<close>, a slot number or -1) are dropped; an operation with
  undefined behaviour ends the run. \<open>per_ctx_free\<close> is called for a slot in use only.
\<close>

datatype slot_op = Op_new | Op_clone addr | Op_alloc addr nat | Op_free addr int

fun slot_step :: "nat \<Rightarrow> slot_op \<Rightarrow> state \<Rightarrow> state option" where
  "slot_step n Op_new st = map_option snd (kdump_new n st)"
| "slot_step n (Op_clone orig) st = map_option snd (kdump_clone n orig st)"
| "slot_step n (Op_alloc sh sz) st = map_option snd (per_ctx_alloc n sh sz st)"
| "slot_step n (Op_free sh slot) st =
     (case shareds st sh of
        None \<Rightarrow> None
      | Some s \<Rightarrow>
          if 0 \<le> slot \<and> slot < int n \<and> per_ctx_size s ! nat slot \<noteq> 0
          then per_ctx_free n sh slot st else None)"

fun slot_run :: "nat \<Rightarrow> slot_op list \<Rightarrow> state \<Rightarrow> state option" where
  "slot_run n [] st = Some st"
| "slot_run n (x # xs) st = Option.bind (slot_step n x st) (slot_run n xs)"

text \<open>
  The outcomes the allocator has in store. An outcome is good for a store when it
  proposes an address that is not null and not in use there. The next \<open>k\<close> calls of
  \<open>malloc\<close> succeed when the next \<open>k\<close> outcomes are good for the buffers and no two of
  them propose the same address.
\<close>

fun good_outcome :: "(addr \<Rightarrow> bool) \<Rightarrow> addr option \<Rightarrow> bool" where
  "good_outcome used None = False"
| "good_outcome used (Some p) = (p \<noteq> NULL \<and> \<not> used p)"

definition mallocs_succeed :: "nat \<Rightarrow> state \<Rightarrow> bool" where
  "mallocs_succeed k st \<longleftrightarrow>
     k \<le> length (allocs st) \<and> distinct (take k (allocs st)) \<and>
     list_all (good_outcome (\<lambda>a. bufs st a \<noteq> None)) (take k (allocs st))"

text \<open>The number of slots in use, and the outcomes that let every allocation of
  \<open>kdump_clone\<close> succeed: the context, the coordinate-system handle, and one buffer for
  each slot in use.\<close>

definition used_slots :: "nat list \<Rightarrow> nat" where
  "used_slots sizes = length (filter (\<lambda>z. z \<noteq> 0) sizes)"

definition clone_allocs_succeed :: "nat list \<Rightarrow> state \<Rightarrow> bool" where
  "clone_allocs_succeed sizes st \<longleftrightarrow>
     (case allocs st of
        a # b # rest \<Rightarrow>
          good_outcome (\<lambda>p. ctxs st p \<noteq> None) a \<and> good_outcome (\<lambda>p. xlatctxs st p \<noteq> None) b \<and>
          mallocs_succeed (used_slots sizes) (st\<lparr>allocs := rest\<rparr>)
      | _ \<Rightarrow> False)"

text \<open>The six stores of two states are the same.\<close>

definition same_stores :: "state \<Rightarrow> state \<Rightarrow> bool" where
  "same_stores st st' \<longleftrightarrow>
     ctxs st' = ctxs st \<and> shareds st' = shareds st \<and> dicts st' = dicts st \<and>
     xlats st' = xlats st \<and> xlatctxs st' = xlatctxs st \<and> bufs st' = bufs st"

text \<open>The context that \<open>alloc_ctx\<close> returns: zeroed but for the error channel and \<open>xlatctx\<close>.\<close>

definition fresh_ctx :: "nat \<Rightarrow> addr \<Rightarrow> kdump_ctx" where
  "fresh_ctx n x = (zero_ctx n)\<lparr>xlatctx := x, err := \<lparr>bufsz = ERRBUF, msg = []\<rparr>\<rparr>"

text \<open>
  A trace of allocations followed by the matching releases in reverse order.
\<close>

fun release_of :: "event \<Rightarrow> event" where
  "release_of (Alloc k a) = Free k a"
| "release_of (Free k a) = Free k a"

definition unwound :: "event list \<Rightarrow> event list" where
  "unwound evs = evs @ map release_of (rev evs)"

section \<open>Example states\<close>

text \<open>The size table and the context list of a registry, for reading a state.\<close>

definition size_table :: "addr \<Rightarrow> state \<Rightarrow> nat list option" where
  "size_table sh st = map_option per_ctx_size (shareds st sh)"

definition ctx_list :: "addr \<Rightarrow> state \<Rightarrow> addr list option" where
  "ctx_list sh st = map_option ctx (shareds st sh)"

text \<open>The state with no object at all, for given outcomes of what is to come.\<close>

definition init_state :: "addr option list \<Rightarrow> bool list \<Rightarrow> state" where
  "init_state al rl =
     \<lparr>ctxs = Map.empty, shareds = Map.empty, dicts = Map.empty, xlats = Map.empty,
      xlatctxs = Map.empty, bufs = Map.empty, allocs = al, rwlock_inits = rl, trace = []\<rparr>"

text \<open>A state with one registry, two attached contexts and given slot tables.\<close>

definition ex_ctx :: "addr \<Rightarrow> addr list \<Rightarrow> kdump_ctx" where
  "ex_ctx x d = \<lparr>shared = 1, dict = 2, xlat = 3, xlatctx = x, data = d,
                 err = \<lparr>bufsz = ERRBUF, msg = []\<rparr>\<rparr>"

definition ex_state ::
  "nat list \<Rightarrow> addr list \<Rightarrow> addr list \<Rightarrow> (addr \<rightharpoonup> byte option list) \<Rightarrow> addr option list \<Rightarrow> state"
where
  "ex_state sizes d10 d11 bs al =
     \<lparr>ctxs = [10 \<mapsto> ex_ctx 40 d10, 11 \<mapsto> ex_ctx 41 d11],
      shareds = [1 \<mapsto> \<lparr>refcnt = 2, ctx = [11, 10], per_ctx_size = sizes\<rparr>],
      dicts = [2 \<mapsto> \<lparr>dict_refcnt = 2, dict_shared = 1, cache_size_set = True\<rparr>],
      xlats = [3 \<mapsto> \<lparr>xlat_refcnt = 2, xlat_ctx = [11, 10]\<rparr>],
      xlatctxs = [40 \<mapsto> 1, 41 \<mapsto> 1],
      bufs = bs, allocs = al, rwlock_inits = [], trace = []\<rparr>"

section \<open>Properties of the primitives\<close>

lemma slot_scan_ge: "slot \<le> slot_scan n sizes slot"
proof (induction n sizes slot rule: slot_scan.induct)
  case (1 n sizes slot)
  show ?case
  proof (cases "slot < n \<and> sizes ! slot \<noteq> 0")
    case True
    with 1 have "Suc slot \<le> slot_scan n sizes (Suc slot)" by simp
    with True show ?thesis by (subst slot_scan.simps) simp
  next
    case False
    then show ?thesis by (subst slot_scan.simps) auto
  qed
qed

lemma slot_scan_free:
  "slot_scan n sizes slot < n \<Longrightarrow> sizes ! (slot_scan n sizes slot) = 0"
proof (induction n sizes slot rule: slot_scan.induct)
  case (1 n sizes slot)
  show ?case
  proof (cases "slot < n \<and> sizes ! slot \<noteq> 0")
    case True
    with 1 show ?thesis by (subst (asm) (2) slot_scan.simps, subst slot_scan.simps) simp
  next
    case False
    with 1(2) show ?thesis
      by (subst (asm) slot_scan.simps, subst slot_scan.simps) (auto split: if_splits)
  qed
qed

lemma slot_scan_used:
  "slot \<le> j \<Longrightarrow> j < slot_scan n sizes slot \<Longrightarrow> j < n \<Longrightarrow> sizes ! j \<noteq> 0"
proof (induction n sizes slot rule: slot_scan.induct)
  case (1 n sizes slot)
  show ?case
  proof (cases "slot < n \<and> sizes ! slot \<noteq> 0")
    case True
    show ?thesis
    proof (cases "j = slot")
      case True
      with \<open>slot < n \<and> sizes ! slot \<noteq> 0\<close> show ?thesis by simp
    next
      case False
      with 1(2) have "Suc slot \<le> j" by simp
      moreover from True 1(3) have "j < slot_scan n sizes (Suc slot)"
        by (subst (asm) slot_scan.simps) simp
      ultimately show ?thesis using 1(1) True 1(4) by simp
    qed
  next
    case False
    with 1(3) have "j < slot" by (subst (asm) slot_scan.simps) (auto split: if_splits)
    with 1(2) show ?thesis by simp
  qed
qed

lemma pick_frame:
  "pick used st = (p, st1) \<Longrightarrow>
     ctxs st1 = ctxs st \<and> shareds st1 = shareds st \<and> dicts st1 = dicts st \<and>
     xlats st1 = xlats st \<and> xlatctxs st1 = xlatctxs st \<and> bufs st1 = bufs st \<and>
     rwlock_inits st1 = rwlock_inits st \<and> trace st1 = trace st \<and> (p \<noteq> NULL \<longrightarrow> \<not> used p)"
  by (auto simp: pick_def split: list.splits option.splits if_splits)

lemma malloc_frame:
  "malloc sz st = (p, st1) \<Longrightarrow>
     ctxs st1 = ctxs st \<and> shareds st1 = shareds st \<and> dicts st1 = dicts st \<and>
     xlats st1 = xlats st \<and> xlatctxs st1 = xlatctxs st \<and> rwlock_inits st1 = rwlock_inits st"
  by (auto simp: malloc_def split: prod.splits if_splits dest: pick_frame)

lemma malloc_bufs:
  "malloc sz st = (p, st1) \<Longrightarrow>
     (p = NULL \<longrightarrow> bufs st1 = bufs st \<and> trace st1 = trace st) \<and>
     (p \<noteq> NULL \<longrightarrow> bufs st p = None \<and> bufs st1 = (bufs st)(p \<mapsto> replicate sz None)
         \<and> trace st1 = trace st @ [Alloc K_buf p])"
  by (auto simp: malloc_def split: prod.splits if_splits dest: pick_frame)

lemma free_frame:
  "free p st = Some st1 \<Longrightarrow>
     ctxs st1 = ctxs st \<and> shareds st1 = shareds st \<and> dicts st1 = dicts st \<and>
     xlats st1 = xlats st \<and> xlatctxs st1 = xlatctxs st \<and> allocs st1 = allocs st \<and>
     rwlock_inits st1 = rwlock_inits st"
  by (auto simp: free_def split: option.splits if_splits)

lemma free_bufs:
  "free p st = Some st1 \<Longrightarrow>
     (p = NULL \<longrightarrow> bufs st1 = bufs st) \<and>
     (p \<noteq> NULL \<longrightarrow> bufs st p \<noteq> None \<and> bufs st1 = (bufs st)(p := None))"
  by (auto simp: free_def split: option.splits if_splits)

lemma free_live: "p = NULL \<or> bufs st p \<noteq> None \<Longrightarrow> \<exists>st1. free p st = Some st1"
  by (auto simp: free_def split: option.splits)

lemma set_data_frame:
  "set_data c slot p st = Some st1 \<Longrightarrow>
     shareds st1 = shareds st \<and> dicts st1 = dicts st \<and> xlats st1 = xlats st \<and>
     xlatctxs st1 = xlatctxs st \<and> bufs st1 = bufs st \<and> allocs st1 = allocs st \<and>
     rwlock_inits st1 = rwlock_inits st \<and> trace st1 = trace st"
  by (auto simp: set_data_def split: option.splits if_splits)

lemma set_data_ctxs:
  "set_data c slot p st = Some st1 \<Longrightarrow>
     \<exists>x. ctxs st c = Some x \<and> slot < length (data x) \<and>
         ctxs st1 = (ctxs st)(c \<mapsto> x\<lparr>data := (data x)[slot := p]\<rparr>)"
  by (auto simp: set_data_def split: option.splits if_splits)

lemma set_data_live:
  "ctxs st c = Some x \<Longrightarrow> slot < length (data x) \<Longrightarrow> \<exists>st1. set_data c slot p st = Some st1"
  by (simp add: set_data_def)

lemma get_data_set_data:
  "set_data c slot p st = Some st1 \<Longrightarrow>
     get_data c' i st1 = (if c' = c \<and> i = slot then Some p else get_data c' i st)"
  by (auto simp: set_data_def get_data_def split: option.splits if_splits)

lemma get_data_ctxs: "ctxs st1 = ctxs st \<Longrightarrow> get_data c i st1 = get_data c i st"
  by (simp add: get_data_def)

lemma set_size_frame:
  "set_size s slot sz st = Some st1 \<Longrightarrow>
     ctxs st1 = ctxs st \<and> dicts st1 = dicts st \<and> xlats st1 = xlats st \<and>
     xlatctxs st1 = xlatctxs st \<and> bufs st1 = bufs st \<and> allocs st1 = allocs st \<and>
     rwlock_inits st1 = rwlock_inits st \<and> trace st1 = trace st"
  by (auto simp: set_size_def split: option.splits if_splits)

lemma set_size_shareds:
  "set_size s slot sz st = Some st1 \<Longrightarrow>
     \<exists>x. shareds st s = Some x \<and> slot < length (per_ctx_size x) \<and>
         shareds st1 = (shareds st)(s \<mapsto> x\<lparr>per_ctx_size := (per_ctx_size x)[slot := sz]\<rparr>)"
  by (auto simp: set_size_def split: option.splits if_splits)

lemma set_size_live:
  "shareds st s = Some x \<Longrightarrow> slot < length (per_ctx_size x) \<Longrightarrow>
     \<exists>st1. set_size s slot sz st = Some st1"
  by (simp add: set_size_def)

lemma alloc_loop_Inr:
  "alloc_loop sh slot sz prev cs st = Some (Inr r, st') \<Longrightarrow>
     r = slot \<and> shareds st' = shareds st"
proof (induction cs arbitrary: prev st)
  case Nil
  then show ?case by simp
next
  case (Cons c cs)
  obtain p st1 where m: "malloc sz st = (p, st1)" by (cases "malloc sz st")
  from Cons.prems m obtain st2 where
    s: "set_data c slot p st1 = Some st2" and
    r: "p \<noteq> NULL" "alloc_loop sh slot sz (c # prev) cs st2 = Some (Inr r, st')"
    by (auto simp: bind_eq_Some_conv split: if_splits)
  from Cons.IH [OF r(2)] malloc_frame [OF m] set_data_frame [OF s]
  show ?case by simp
qed

lemma alloc_loop_Inl:
  "alloc_loop sh slot sz prev cs st = Some (Inl e, st') \<Longrightarrow> e = ENOMEM"
proof (induction cs arbitrary: prev st)
  case Nil
  then show ?case by simp
next
  case (Cons c cs)
  obtain p st1 where m: "malloc sz st = (p, st1)" by (cases "malloc sz st")
  from Cons.prems m Cons.IH show ?case
    by (auto simp: bind_eq_Some_conv split: if_splits)
qed

lemma free_prev_free_all: "free_prev slot cs st = free_all slot cs st"
  by (induction cs arbitrary: st) (simp_all cong: Option.bind_cong)

lemma free_all_frame:
  "free_all slot cs st = Some st' \<Longrightarrow>
     ctxs st' = ctxs st \<and> shareds st' = shareds st \<and> dicts st' = dicts st \<and>
     xlats st' = xlats st \<and> xlatctxs st' = xlatctxs st \<and> allocs st' = allocs st \<and>
     rwlock_inits st' = rwlock_inits st"
proof (induction cs arbitrary: st)
  case Nil
  then show ?case by simp
next
  case (Cons c cs)
  from Cons.prems obtain p st1 where
    f: "free p st = Some st1" and r: "free_all slot cs st1 = Some st'"
    by (auto simp: bind_eq_Some_conv)
  from Cons.IH [OF r] free_frame [OF f] show ?case by simp
qed

lemma slot_ptrs_Cons:
  "slot_ptrs slot (c # cs) st =
     (case get_data c slot st of None \<Rightarrow> {} | Some p \<Rightarrow> if p = NULL then {} else {p})
       \<union> slot_ptrs slot cs st"
  by (auto simp: slot_ptrs_def split: option.splits if_splits)

lemma slot_ptrs_ctxs: "ctxs st' = ctxs st \<Longrightarrow> slot_ptrs slot cs st' = slot_ptrs slot cs st"
  by (simp add: slot_ptrs_def get_data_def)

lemma free_all_bufs:
  "free_all slot cs st = Some st' \<Longrightarrow>
     bufs st' a = (if a \<in> slot_ptrs slot cs st then None else bufs st a)"
proof (induction cs arbitrary: st)
  case Nil
  then show ?case by (simp add: slot_ptrs_def)
next
  case (Cons c cs)
  from Cons.prems obtain p st1 where
    g: "get_data c slot st = Some p" and
    f: "free p st = Some st1" and r: "free_all slot cs st1 = Some st'"
    by (auto simp: bind_eq_Some_conv)
  from free_frame [OF f] have "slot_ptrs slot cs st1 = slot_ptrs slot cs st"
    by (intro slot_ptrs_ctxs) simp
  with Cons.IH [OF r] have 1:
    "bufs st' a = (if a \<in> slot_ptrs slot cs st then None else bufs st1 a)" by simp
  have 2: "slot_ptrs slot (c # cs) st = (if p = NULL then {} else {p}) \<union> slot_ptrs slot cs st"
    using g by (simp add: slot_ptrs_Cons)
  from free_bufs [OF f] have 3: "bufs st1 a = (if p \<noteq> NULL \<and> a = p then None else bufs st a)"
    by (cases "p = NULL") simp_all
  show ?case unfolding 1 2 3 by simp
qed

lemma freeable_Cons:
  "freeable slot (c # cs) st \<Longrightarrow> get_data c slot st = Some p \<Longrightarrow> free p st = Some st1 \<Longrightarrow>
     freeable slot cs st1"
proof -
  assume a: "freeable slot (c # cs) st" and g: "get_data c slot st = Some p"
    and f: "free p st = Some st1"
  have gd: "\<And>c' i. get_data c' i st1 = get_data c' i st"
    using free_frame [OF f] by (simp add: get_data_def)
  have "\<exists>q. get_data c' slot st1 = Some q \<and> (q = NULL \<or> bufs st1 q \<noteq> None)"
    if c': "c' \<in> set cs" for c'
  proof -
    from a c' obtain q where q: "get_data c' slot st = Some q" "q = NULL \<or> bufs st q \<noteq> None"
      by (auto simp: freeable_def)
    from a c' have ne: "c \<noteq> c'" by (auto simp: freeable_def)
    have "q = NULL \<or> q \<noteq> p"
    proof (rule ccontr)
      assume "\<not> (q = NULL \<or> q \<noteq> p)"
      then have "q = p" "q \<noteq> NULL" by auto
      with a c' ne g q(1) show False by (auto simp: freeable_def)
    qed
    with q free_bufs [OF f] show ?thesis by (auto simp: gd)
  qed
  with a show ?thesis by (auto simp: freeable_def gd)
qed

lemma free_all_live: "freeable slot cs st \<Longrightarrow> \<exists>st'. free_all slot cs st = Some st'"
proof (induction cs arbitrary: st)
  case Nil
  then show ?case by simp
next
  case (Cons c cs)
  from Cons.prems obtain p where
    g: "get_data c slot st = Some p" and l: "p = NULL \<or> bufs st p \<noteq> None"
    by (auto simp: freeable_def)
  from free_live [OF l] obtain st1 where f: "free p st = Some st1" by blast
  from Cons.IH [OF freeable_Cons [OF Cons.prems g f]] g f show ?case by simp
qed

lemma get_data_Some:
  "get_data c slot st = Some q \<longleftrightarrow>
     (\<exists>x. ctxs st c = Some x \<and> slot < length (data x) \<and> q = data x ! slot)"
  by (auto simp: get_data_def split: option.splits)

lemma get_data_None_iff:
  "get_data c slot st \<noteq> None \<longleftrightarrow> (\<exists>x. ctxs st c = Some x \<and> slot < length (data x))"
  by (auto simp: get_data_def split: option.splits)

lemma loop_ok_head:
  assumes "loop_ok sh slot prev (c # cs) st" and "malloc sz st = (p, st1)"
  shows "\<exists>st2. set_data c slot p st1 = Some st2"
proof -
  from assms(1) have "get_data c slot st \<noteq> None" by (simp add: loop_ok_def)
  then obtain x where "ctxs st c = Some x" "slot < length (data x)"
    unfolding get_data_None_iff by blast
  with malloc_frame [OF assms(2)] show ?thesis by (simp add: set_data_def)
qed

lemma loop_ok_fail:
  assumes ok: "loop_ok sh slot prev (c # cs) st" and m: "malloc sz st = (NULL, st1)"
    and s: "set_data c slot NULL st1 = Some st2"
  shows "freeable slot prev st2"
proof -
  from ok have c: "c \<notin> set prev" and d: "distinct prev" by (auto simp: loop_ok_def)
  have b: "bufs st2 = bufs st" using malloc_bufs [OF m] set_data_frame [OF s] by simp
  have g: "get_data c' slot st2 = get_data c' slot st" if "c' \<in> set prev" for c'
    using that c get_data_set_data [OF s, of c' slot] malloc_frame [OF m]
    by (auto simp: get_data_def)
  from ok have 1: "\<forall>c'\<in>set prev. \<exists>q. get_data c' slot st = Some q \<and> q \<noteq> NULL \<and> bufs st q \<noteq> None"
    and 2: "\<forall>c'\<in>set prev. \<forall>c''\<in>set prev. c' \<noteq> c'' \<longrightarrow> get_data c' slot st \<noteq> get_data c'' slot st"
    by (simp_all add: loop_ok_def)
  show ?thesis unfolding freeable_def
  proof (intro conjI ballI impI)
    show "distinct prev" by (rule d)
  next
    fix c' assume c': "c' \<in> set prev"
    with 1 obtain q where "get_data c' slot st = Some q" "bufs st q \<noteq> None" by blast
    with g [OF c'] b show "\<exists>q. get_data c' slot st2 = Some q \<and> (q = NULL \<or> bufs st2 q \<noteq> None)"
      by simp
  next
    fix c' c'' assume "c' \<in> set prev" "c'' \<in> set prev" "c' \<noteq> c''"
      "get_data c' slot st2 = get_data c'' slot st2"
    with g 2 show "get_data c' slot st2 = Some NULL" by simp
  qed
qed

lemma loop_ok_step:
  assumes ok: "loop_ok sh slot prev (c # cs) st" and m: "malloc sz st = (p, st1)"
    and p: "p \<noteq> NULL" and s: "set_data c slot p st1 = Some st2"
  shows "loop_ok sh slot (c # prev) cs st2"
proof -
  from ok have c: "c \<notin> set prev" "c \<notin> set cs" and d: "distinct (prev @ cs)"
    by (auto simp: loop_ok_def)
  from malloc_bufs [OF m] p set_data_frame [OF s] have
    b: "bufs st2 = (bufs st)(p \<mapsto> replicate sz None)" and fresh: "bufs st p = None" by simp_all
  have g: "get_data c' slot st2 = get_data c' slot st" if "c' \<noteq> c" for c'
    using that get_data_set_data [OF s, of c' slot] malloc_frame [OF m]
    by (auto simp: get_data_def)
  have gc: "get_data c slot st2 = Some p" using get_data_set_data [OF s, of c slot] by simp
  from ok have 1: "\<forall>c'\<in>set prev. \<exists>q. get_data c' slot st = Some q \<and> q \<noteq> NULL \<and> bufs st q \<noteq> None"
    and 2: "\<forall>c'\<in>set prev. \<forall>c''\<in>set prev. c' \<noteq> c'' \<longrightarrow> get_data c' slot st \<noteq> get_data c'' slot st"
    and 3: "\<forall>c'\<in>set cs. get_data c' slot st \<noteq> None"
    and 4: "\<exists>s. shareds st sh = Some s \<and> slot < length (per_ctx_size s)"
    by (simp_all add: loop_ok_def)
  have np: "get_data c' slot st \<noteq> Some p" if "c' \<in> set prev" for c'
    using 1 that fresh by auto
  show ?thesis unfolding loop_ok_def
  proof (intro conjI ballI impI)
    show "distinct ((c # prev) @ cs)" using c d by simp
  next
    fix c' assume c': "c' \<in> set (c # prev)"
    show "\<exists>q. get_data c' slot st2 = Some q \<and> q \<noteq> NULL \<and> bufs st2 q \<noteq> None"
    proof (cases "c' = c")
      case True
      with gc p b show ?thesis by simp
    next
      case False
      with c' 1 obtain q where "get_data c' slot st = Some q" "q \<noteq> NULL" "bufs st q \<noteq> None"
        by auto
      with g [OF False] b show ?thesis by simp
    qed
  next
    fix c' c'' assume a: "c' \<in> set (c # prev)" "c'' \<in> set (c # prev)" "c' \<noteq> c''"
    show "get_data c' slot st2 \<noteq> get_data c'' slot st2"
    proof (cases "c' = c")
      case True
      with a have "c'' \<in> set prev" "c'' \<noteq> c" by auto
      with np [of c''] g [of c''] gc True show ?thesis by auto
    next
      case False
      note f = this
      show ?thesis
      proof (cases "c'' = c")
        case True
        with a f have "c' \<in> set prev" by auto
        with np [of c'] g [of c'] f gc True show ?thesis by auto
      next
        case False
        with a f 2 g show ?thesis by simp
      qed
    qed
  next
    fix c' assume c': "c' \<in> set cs"
    with c have "c' \<noteq> c" by auto
    from g [OF this] 3 c' show "get_data c' slot st2 \<noteq> None" by simp
  next
    from 4 malloc_frame [OF m] set_data_frame [OF s]
    show "\<exists>s. shareds st2 sh = Some s \<and> slot < length (per_ctx_size s)" by simp
  qed
qed

lemma alloc_loop_total:
  "loop_ok sh slot prev cs st \<Longrightarrow> \<exists>r st'. alloc_loop sh slot sz prev cs st = Some (r, st')"
proof (induction cs arbitrary: prev st)
  case Nil
  then show ?case by simp
next
  case (Cons c cs)
  obtain p st1 where m: "malloc sz st = (p, st1)" by (cases "malloc sz st")
  from loop_ok_head [OF Cons.prems m] obtain st2 where s: "set_data c slot p st1 = Some st2"
    by blast
  show ?case
  proof (cases "p = NULL")
    case True
    from loop_ok_fail [OF Cons.prems m [unfolded True] s [unfolded True]]
    have "freeable slot prev st2" .
    from free_all_live [OF this] obtain st3 where f: "free_prev slot prev st2 = Some st3"
      by (auto simp: free_prev_free_all)
    from Cons.prems obtain x where "shareds st sh = Some x" "slot < length (per_ctx_size x)"
      by (auto simp: loop_ok_def)
    with malloc_frame [OF m] set_data_frame [OF s] free_all_frame [OF f [unfolded free_prev_free_all]]
    have "\<exists>st4. set_size sh slot 0 st3 = Some st4" by (simp add: set_size_def)
    with m s f True show ?thesis by auto
  next
    case False
    from Cons.IH [OF loop_ok_step [OF Cons.prems m False s]] m s False show ?thesis by simp
  qed
qed

lemma alloc_loop_Cons_cases:
  assumes "alloc_loop sh slot sz prev (c # cs) st = Some (r, st')"
  obtains (fail) st1 st2 st3 where
      "malloc sz st = (NULL, st1)" "set_data c slot NULL st1 = Some st2"
      "free_all slot prev st2 = Some st3" "set_size sh slot 0 st3 = Some st'" "r = Inl ENOMEM"
    | (step) p st1 st2 where
      "malloc sz st = (p, st1)" "p \<noteq> NULL" "set_data c slot p st1 = Some st2"
      "alloc_loop sh slot sz (c # prev) cs st2 = Some (r, st')"
proof -
  obtain p st1 where m: "malloc sz st = (p, st1)" by (cases "malloc sz st")
  show thesis
  proof (cases "p = NULL")
    case True
    with assms m obtain st2 st3 where
      "set_data c slot NULL st1 = Some st2" "free_prev slot prev st2 = Some st3"
      "set_size sh slot 0 st3 = Some st'" "r = Inl ENOMEM"
      by (auto simp: bind_eq_Some_conv)
    with m True show thesis by (intro fail [of st1 st2 st3]) (simp_all add: free_prev_free_all)
  next
    case False
    with assms m obtain st2 where
      "set_data c slot p st1 = Some st2" "alloc_loop sh slot sz (c # prev) cs st2 = Some (r, st')"
      by (auto simp: bind_eq_Some_conv)
    with m False show thesis by (intro step [of p st1 st2]) simp_all
  qed
qed

text \<open>What the loop leaves alone, whatever its outcome.\<close>

lemma alloc_loop_frame:
  "alloc_loop sh slot sz prev cs st = Some (r, st') \<Longrightarrow>
     dicts st' = dicts st \<and> xlats st' = xlats st \<and> xlatctxs st' = xlatctxs st \<and>
     rwlock_inits st' = rwlock_inits st"
proof (induction cs arbitrary: prev st)
  case Nil
  then show ?case by simp
next
  case (Cons c cs)
  from Cons.prems show ?case
  proof (cases rule: alloc_loop_Cons_cases)
    case (fail st1 st2 st3)
    from malloc_frame [OF fail(1)] set_data_frame [OF fail(2)] free_all_frame [OF fail(3)]
      set_size_frame [OF fail(4)]
    show ?thesis by simp
  next
    case (step p st1 st2)
    from Cons.IH [OF step(4)] malloc_frame [OF step(1)] set_data_frame [OF step(3)]
    show ?thesis by simp
  qed
qed

lemma alloc_loop_ctxs_other:
  "alloc_loop sh slot sz prev cs st = Some (r, st') \<Longrightarrow> c' \<notin> set cs \<Longrightarrow>
     ctxs st' c' = ctxs st c'"
proof (induction cs arbitrary: prev st)
  case Nil
  then show ?case by simp
next
  case (Cons c cs)
  from Cons.prems(2) have ne: "c' \<noteq> c" "c' \<notin> set cs" by auto
  from Cons.prems(1) show ?case
  proof (cases rule: alloc_loop_Cons_cases)
    case (fail st1 st2 st3)
    from set_data_ctxs [OF fail(2)] ne malloc_frame [OF fail(1)] free_all_frame [OF fail(3)]
      set_size_frame [OF fail(4)]
    show ?thesis by auto
  next
    case (step p st1 st2)
    from set_data_ctxs [OF step(3)] ne malloc_frame [OF step(1)] Cons.IH [OF step(4) ne(2)]
    show ?thesis by auto
  qed
qed

lemma alloc_loop_ctxs:
  "alloc_loop sh slot sz prev cs st = Some (r, st') \<Longrightarrow>
     (ctxs st c' = None \<longrightarrow> ctxs st' c' = None) \<and>
     (\<forall>x. ctxs st c' = Some x \<longrightarrow>
        (\<exists>q. ctxs st' c' = Some (x\<lparr>data := (data x)[slot := q]\<rparr>)))"
proof (induction cs arbitrary: prev st)
  case Nil
  then have "st' = st" by simp
  moreover have "x = x\<lparr>data := (data x)[slot := data x ! slot]\<rparr>" for x :: kdump_ctx
    by simp
  ultimately show ?case by metis
next
  case (Cons c cs)
  have id: "x = x\<lparr>data := (data x)[slot := data x ! slot]\<rparr>" for x :: kdump_ctx
    by simp
  from Cons.prems(1) show ?case
  proof (cases rule: alloc_loop_Cons_cases)
    case (fail st1 st2 st3)
    from malloc_frame [OF fail(1)] free_all_frame [OF fail(3)] set_size_frame [OF fail(4)]
    have e: "ctxs st' = ctxs st2" "ctxs st1 = ctxs st" by simp_all
    from set_data_ctxs [OF fail(2)] obtain x where
      x: "ctxs st1 c = Some x" "ctxs st2 = (ctxs st1)(c \<mapsto> x\<lparr>data := (data x)[slot := NULL]\<rparr>)"
      by blast
    show ?thesis
    proof (cases "c' = c")
      case True
      with e x show ?thesis by auto
    next
      case False
      with e x have "ctxs st' c' = ctxs st c'" by simp
      with id show ?thesis by metis
    qed
  next
    case (step p st1 st2)
    note ih = Cons.IH [OF step(4)]
    from set_data_ctxs [OF step(3)] malloc_frame [OF step(1)] obtain x where
      x: "ctxs st c = Some x" "ctxs st2 = (ctxs st)(c \<mapsto> x\<lparr>data := (data x)[slot := p]\<rparr>)"
      by auto
    show ?thesis
    proof (cases "c' = c")
      case True
      with x have "ctxs st2 c' = Some (x\<lparr>data := (data x)[slot := p]\<rparr>)" by simp
      with ih obtain q where
        "ctxs st' c' = Some (x\<lparr>data := (data x)[slot := p]\<rparr>\<lparr>data := (data (x\<lparr>data := (data x)[slot := p]\<rparr>))[slot := q]\<rparr>)"
        by blast
      with True x(1) show ?thesis by auto
    next
      case False
      with x have "ctxs st2 c' = ctxs st c'" by simp
      with ih show ?thesis by simp
    qed
  qed
qed

lemma slot_ptrs_set_data:
  "set_data c slot p st1 = Some st2 \<Longrightarrow> c \<notin> set cs \<Longrightarrow>
     slot_ptrs slot cs st2 = slot_ptrs slot cs st1"
proof -
  assume s: "set_data c slot p st1 = Some st2" and c: "c \<notin> set cs"
  have "get_data c' slot st2 = get_data c' slot st1" if "c' \<in> set cs" for c'
    using that c get_data_set_data [OF s, of c' slot] by auto
  then show ?thesis by (auto simp: slot_ptrs_def)
qed

lemma alloc_loop_fail_bufs:
  "alloc_loop sh slot sz prev cs st = Some (Inl e, st') \<Longrightarrow> distinct (prev @ cs) \<Longrightarrow>
     bufs st' a = (if a \<in> slot_ptrs slot prev st then None else bufs st a)"
proof (induction cs arbitrary: prev st)
  case Nil
  then show ?case by simp
next
  case (Cons c cs)
  from Cons.prems(2) have c: "c \<notin> set prev" and d: "distinct ((c # prev) @ cs)" by auto
  from Cons.prems(1) show ?case
  proof (cases rule: alloc_loop_Cons_cases)
    case (fail st1 st2 st3)
    have 1: "bufs st' a = bufs st3 a" using set_size_frame [OF fail(4)] by simp
    have 2: "bufs st3 a = (if a \<in> slot_ptrs slot prev st2 then None else bufs st2 a)"
      by (rule free_all_bufs [OF fail(3)])
    have 3: "slot_ptrs slot prev st2 = slot_ptrs slot prev st1"
      by (rule slot_ptrs_set_data [OF fail(2) c])
    have 4: "slot_ptrs slot prev st1 = slot_ptrs slot prev st"
      using malloc_frame [OF fail(1)] by (intro slot_ptrs_ctxs) simp
    have 5: "bufs st2 a = bufs st a"
      using malloc_bufs [OF fail(1)] set_data_frame [OF fail(2)] by simp
    show ?thesis unfolding 1 2 3 4 5 ..
  next
    case (step p st1 st2)
    have 1: "bufs st' a = (if a \<in> slot_ptrs slot (c # prev) st2 then None else bufs st2 a)"
      by (rule Cons.IH [OF step(4) d])
    have g: "get_data c slot st2 = Some p" using get_data_set_data [OF step(3), of c slot] by simp
    have 3: "slot_ptrs slot prev st2 = slot_ptrs slot prev st1"
      by (rule slot_ptrs_set_data [OF step(3) c])
    have 4: "slot_ptrs slot prev st1 = slot_ptrs slot prev st"
      using malloc_frame [OF step(1)] by (intro slot_ptrs_ctxs) simp
    have 2: "slot_ptrs slot (c # prev) st2 = {p} \<union> slot_ptrs slot prev st"
      using g step(2) by (simp add: slot_ptrs_Cons 3 4)
    have 5: "bufs st2 a = (if a = p then Some (replicate sz None) else bufs st a)"
      using malloc_bufs [OF step(1)] step(2) set_data_frame [OF step(3)] by simp
    have 6: "bufs st p = None" using malloc_bufs [OF step(1)] step(2) by simp
    show ?thesis unfolding 1 2 5 using 6 by auto
  qed
qed

lemma alloc_loop_fail_shareds:
  "alloc_loop sh slot sz prev cs st = Some (Inl e, st') \<Longrightarrow>
     \<exists>s. shareds st sh = Some s \<and> slot < length (per_ctx_size s) \<and>
         shareds st' = (shareds st)(sh \<mapsto> s\<lparr>per_ctx_size := (per_ctx_size s)[slot := 0]\<rparr>)"
proof (induction cs arbitrary: prev st)
  case Nil
  then show ?case by simp
next
  case (Cons c cs)
  from Cons.prems(1) show ?case
  proof (cases rule: alloc_loop_Cons_cases)
    case (fail st1 st2 st3)
    from malloc_frame [OF fail(1)] set_data_frame [OF fail(2)] free_all_frame [OF fail(3)]
    have e: "shareds st3 = shareds st" by simp
    from set_size_shareds [OF fail(4)] show ?thesis unfolding e .
  next
    case (step p st1 st2)
    from malloc_frame [OF step(1)] set_data_frame [OF step(3)]
    have e: "shareds st2 = shareds st" by simp
    from Cons.IH [OF step(4)] show ?thesis unfolding e .
  qed
qed

lemma alloc_loop_fail_shape:
  "alloc_loop sh slot sz prev cs st = Some (Inl e, st') \<Longrightarrow> distinct (prev @ cs) \<Longrightarrow>
     \<exists>before c rest. cs = before @ c # rest \<and> get_data c slot st' = Some NULL \<and>
        (\<forall>c'\<in>set rest. ctxs st' c' = ctxs st c') \<and>
        (\<forall>c'\<in>set before. \<exists>q. get_data c' slot st' = Some q \<and> q \<noteq> NULL \<and>
            bufs st' q = None \<and> bufs st q = None)"
proof (induction cs arbitrary: prev st)
  case Nil
  then show ?case by simp
next
  case (Cons c cs)
  from Cons.prems(2) have c: "c \<notin> set prev" "c \<notin> set cs" and d: "distinct ((c # prev) @ cs)"
    by auto
  from Cons.prems(1) show ?case
  proof (cases rule: alloc_loop_Cons_cases)
    case (fail st1 st2 st3)
    from malloc_frame [OF fail(1)] free_all_frame [OF fail(3)] set_size_frame [OF fail(4)]
    have e: "ctxs st' = ctxs st2" "ctxs st1 = ctxs st" by simp_all
    have "get_data c slot st2 = Some NULL"
      using get_data_set_data [OF fail(2), of c slot] by simp
    with e have 1: "get_data c slot st' = Some NULL" by (simp add: get_data_def)
    have 2: "\<forall>c'\<in>set cs. ctxs st' c' = ctxs st c'"
      using set_data_ctxs [OF fail(2)] e c by auto
    from 1 2 have "c # cs = [] @ c # cs \<and> get_data c slot st' = Some NULL \<and>
        (\<forall>c'\<in>set cs. ctxs st' c' = ctxs st c') \<and>
        (\<forall>c'\<in>set []. \<exists>q. get_data c' slot st' = Some q \<and> q \<noteq> NULL \<and>
            bufs st' q = None \<and> bufs st q = None)" by simp
    then show ?thesis by blast
  next
    case (step p st1 st2)
    from Cons.IH [OF step(4) d] obtain before c1 rest where
      ih: "cs = before @ c1 # rest" "get_data c1 slot st' = Some NULL"
        "\<forall>c'\<in>set rest. ctxs st' c' = ctxs st2 c'"
        "\<forall>c'\<in>set before. \<exists>q. get_data c' slot st' = Some q \<and> q \<noteq> NULL \<and>
            bufs st' q = None \<and> bufs st2 q = None"
      by blast
    have b2: "bufs st2 = (bufs st)(p \<mapsto> replicate sz None)" and fresh: "bufs st p = None"
      using malloc_bufs [OF step(1)] step(2) set_data_frame [OF step(3)] by simp_all
    have g2: "get_data c slot st2 = Some p"
      using get_data_set_data [OF step(3), of c slot] by simp
    have "ctxs st' c = ctxs st2 c" by (rule alloc_loop_ctxs_other [OF step(4) c(2)])
    with g2 have g: "get_data c slot st' = Some p" by (simp add: get_data_def)
    have "p \<in> slot_ptrs slot (c # prev) st2" using g2 step(2) by (simp add: slot_ptrs_Cons)
    with alloc_loop_fail_bufs [OF step(4) d, of p] have f: "bufs st' p = None" by simp
    have other: "ctxs st2 c' = ctxs st c'" if "c' \<noteq> c" for c'
      using that set_data_ctxs [OF step(3)] malloc_frame [OF step(1)] by auto
    have 1: "c # cs = (c # before) @ c1 # rest" using ih(1) by simp
    have 3: "\<forall>c'\<in>set rest. ctxs st' c' = ctxs st c'"
    proof
      fix c' assume c': "c' \<in> set rest"
      with ih(1) c(2) have "c' \<noteq> c" by auto
      with other ih(3) c' show "ctxs st' c' = ctxs st c'" by simp
    qed
    have 4: "\<forall>c'\<in>set (c # before). \<exists>q. get_data c' slot st' = Some q \<and> q \<noteq> NULL \<and>
            bufs st' q = None \<and> bufs st q = None"
    proof
      fix c' assume c': "c' \<in> set (c # before)"
      show "\<exists>q. get_data c' slot st' = Some q \<and> q \<noteq> NULL \<and> bufs st' q = None \<and> bufs st q = None"
      proof (cases "c' = c")
        case True
        with g step(2) f fresh show ?thesis by simp
      next
        case False
        with c' ih(4) obtain q where
          q: "get_data c' slot st' = Some q" "q \<noteq> NULL" "bufs st' q = None" "bufs st2 q = None"
          by auto
        from q(4) b2 have "bufs st q = None" by (cases "q = p") simp_all
        with q show ?thesis by simp
      qed
    qed
    from 1 ih(2) 3 4 show ?thesis by blast
  qed
qed

lemma alloc_loop_ok_old:
  "alloc_loop sh slot sz prev cs st = Some (Inr r, st') \<Longrightarrow> bufs st a \<noteq> None \<Longrightarrow>
     bufs st' a = bufs st a"
proof (induction cs arbitrary: prev st)
  case Nil
  then show ?case by simp
next
  case (Cons c cs)
  from Cons.prems(1) show ?case
  proof (cases rule: alloc_loop_Cons_cases)
    case (fail st1 st2 st3)
    then show ?thesis by simp
  next
    case (step p st1 st2)
    have "bufs st2 = (bufs st)(p \<mapsto> replicate sz None)" "bufs st p = None"
      using malloc_bufs [OF step(1)] step(2) set_data_frame [OF step(3)] by simp_all
    with Cons.prems(2) have "bufs st2 a = bufs st a" by auto
    with Cons.IH [OF step(4)] Cons.prems(2) show ?thesis by simp
  qed
qed

lemma alloc_loop_ok_new:
  "alloc_loop sh slot sz prev cs st = Some (Inr r, st') \<Longrightarrow> distinct cs \<Longrightarrow> c' \<in> set cs \<Longrightarrow>
     \<exists>x q. ctxs st c' = Some x \<and> slot < length (data x) \<and>
        ctxs st' c' = Some (x\<lparr>data := (data x)[slot := q]\<rparr>) \<and>
        q \<noteq> NULL \<and> bufs st q = None \<and> bufs st' q = Some (replicate sz None)"
proof (induction cs arbitrary: prev st)
  case Nil
  then show ?case by simp
next
  case (Cons c cs)
  from Cons.prems(2) have c: "c \<notin> set cs" and d: "distinct cs" by auto
  from Cons.prems(1) show ?case
  proof (cases rule: alloc_loop_Cons_cases)
    case (fail st1 st2 st3)
    then show ?thesis by simp
  next
    case (step p st1 st2)
    have b2: "bufs st2 = (bufs st)(p \<mapsto> replicate sz None)" and fresh: "bufs st p = None"
      using malloc_bufs [OF step(1)] step(2) set_data_frame [OF step(3)] by simp_all
    from set_data_ctxs [OF step(3)] malloc_frame [OF step(1)] obtain x where
      x: "ctxs st c = Some x" "slot < length (data x)"
         "ctxs st2 = (ctxs st)(c \<mapsto> x\<lparr>data := (data x)[slot := p]\<rparr>)"
      by auto
    show ?thesis
    proof (cases "c' = c")
      case True
      have "ctxs st' c = ctxs st2 c" by (rule alloc_loop_ctxs_other [OF step(4) c])
      with x have 1: "ctxs st' c = Some (x\<lparr>data := (data x)[slot := p]\<rparr>)" by simp
      from b2 have "bufs st2 p \<noteq> None" by simp
      from alloc_loop_ok_old [OF step(4) this] b2
      have 2: "bufs st' p = Some (replicate sz None)" by simp
      from True x(1,2) 1 2 step(2) fresh show ?thesis by blast
    next
      case False
      with Cons.prems(3) have "c' \<in> set cs" by simp
      from Cons.IH [OF step(4) d this] obtain y q where
        q: "ctxs st2 c' = Some y" "slot < length (data y)"
           "ctxs st' c' = Some (y\<lparr>data := (data y)[slot := q]\<rparr>)"
           "q \<noteq> NULL" "bufs st2 q = None" "bufs st' q = Some (replicate sz None)"
        by blast
      from q(1) x(3) False have 1: "ctxs st c' = Some y" by simp
      from q(5) b2 have 2: "bufs st q = None" by (cases "q = p") simp_all
      from 1 2 q show ?thesis by blast
    qed
  qed
qed

lemma alloc_loop_ok_get:
  assumes "alloc_loop sh slot sz prev cs st = Some (Inr r, st')" "distinct cs" "c' \<in> set cs"
  shows "\<exists>q. get_data c' slot st' = Some q \<and> q \<noteq> NULL \<and> bufs st q = None \<and>
            bufs st' q = Some (replicate sz None)"
proof -
  from alloc_loop_ok_new [OF assms] obtain x q where
    "slot < length (data x)" "ctxs st' c' = Some (x\<lparr>data := (data x)[slot := q]\<rparr>)"
    "q \<noteq> NULL" "bufs st q = None" "bufs st' q = Some (replicate sz None)"
    by blast
  then show ?thesis by (simp add: get_data_def)
qed

lemma alloc_loop_ok_distinct:
  "alloc_loop sh slot sz prev cs st = Some (Inr r, st') \<Longrightarrow> distinct cs \<Longrightarrow>
     c1 \<in> set cs \<Longrightarrow> c2 \<in> set cs \<Longrightarrow> c1 \<noteq> c2 \<Longrightarrow>
     get_data c1 slot st' \<noteq> get_data c2 slot st'"
proof (induction cs arbitrary: prev st)
  case Nil
  then show ?case by simp
next
  case (Cons c cs)
  from Cons.prems(2) have c: "c \<notin> set cs" and d: "distinct cs" by auto
  from Cons.prems(1) show ?case
  proof (cases rule: alloc_loop_Cons_cases)
    case (fail st1 st2 st3)
    then show ?thesis by simp
  next
    case (step p st1 st2)
    have b2: "bufs st2 p \<noteq> None"
      using malloc_bufs [OF step(1)] step(2) set_data_frame [OF step(3)] by simp
    have g2: "get_data c slot st2 = Some p"
      using get_data_set_data [OF step(3), of c slot] by simp
    have "ctxs st' c = ctxs st2 c" by (rule alloc_loop_ctxs_other [OF step(4) c])
    with g2 have g: "get_data c slot st' = Some p" by (simp add: get_data_def)
    have tail: "get_data c' slot st' \<noteq> Some p" if "c' \<in> set cs" for c'
      using alloc_loop_ok_get [OF step(4) d that] b2 by auto
    consider "c1 = c" "c2 \<in> set cs" | "c2 = c" "c1 \<in> set cs" | "c1 \<in> set cs" "c2 \<in> set cs"
      using Cons.prems(3,4,5) by auto
    then show ?thesis
    proof cases
      case 1
      with g tail [of c2] show ?thesis by auto
    next
      case 2
      with g tail [of c1] show ?thesis by auto
    next
      case 3
      from Cons.IH [OF step(4) d 3 Cons.prems(5)] show ?thesis .
    qed
  qed
qed

lemma alloc_loop_ok_only:
  "alloc_loop sh slot sz prev cs st = Some (Inr r, st') \<Longrightarrow> distinct cs \<Longrightarrow>
     bufs st' a \<noteq> None \<Longrightarrow> bufs st a \<noteq> None \<or> a \<in> slot_ptrs slot cs st'"
proof (induction cs arbitrary: prev st)
  case Nil
  then show ?case by simp
next
  case (Cons c cs)
  from Cons.prems(2) have c: "c \<notin> set cs" and d: "distinct cs" by auto
  from Cons.prems(1) show ?case
  proof (cases rule: alloc_loop_Cons_cases)
    case (fail st1 st2 st3)
    then show ?thesis by simp
  next
    case (step p st1 st2)
    have b2: "bufs st2 = (bufs st)(p \<mapsto> replicate sz None)"
      using malloc_bufs [OF step(1)] step(2) set_data_frame [OF step(3)] by simp
    have g2: "get_data c slot st2 = Some p"
      using get_data_set_data [OF step(3), of c slot] by simp
    have "ctxs st' c = ctxs st2 c" by (rule alloc_loop_ctxs_other [OF step(4) c])
    with g2 have g: "get_data c slot st' = Some p" by (simp add: get_data_def)
    from Cons.IH [OF step(4) d Cons.prems(3)]
    have "bufs st2 a \<noteq> None \<or> a \<in> slot_ptrs slot cs st'" .
    then show ?thesis
    proof
      assume "bufs st2 a \<noteq> None"
      with b2 have "a = p \<or> bufs st a \<noteq> None" by (cases "a = p") simp_all
      with g step(2) show ?thesis by (auto simp: slot_ptrs_Cons)
    next
      assume "a \<in> slot_ptrs slot cs st'"
      then show ?thesis by (simp add: slot_ptrs_Cons)
    qed
  qed
qed

lemma registry_ok_loop_ok:
  assumes r: "registry_ok n sh st" and s: "shareds st sh = Some s" and k: "slot < n"
    and s1: "set_size sh slot sz st = Some st1"
  shows "loop_ok sh slot [] (ctx s) st1"
proof -
  from r s have len: "length (per_ctx_size s) = n" and d: "distinct (ctx s)"
    and cs: "\<forall>c\<in>set (ctx s). \<exists>x. ctxs st c = Some x \<and> length (data x) = n"
    by (auto simp: registry_ok_def)
  from set_size_frame [OF s1] have c1: "ctxs st1 = ctxs st" by simp
  from set_size_shareds [OF s1] s len k have
    "\<exists>t. shareds st1 sh = Some t \<and> slot < length (per_ctx_size t)" by auto
  moreover have "\<forall>c\<in>set (ctx s). get_data c slot st1 \<noteq> None"
    using cs k c1 by (auto simp: get_data_def)
  ultimately show ?thesis using d by (simp add: loop_ok_def)
qed

lemma per_ctx_alloc_returns:
  assumes r: "registry_ok n sh st"
  shows "\<exists>r st'. per_ctx_alloc n sh sz st = Some (r, st')"
proof -
  from r obtain s where s: "shareds st sh = Some s" and len: "length (per_ctx_size s) = n"
    by (auto simp: registry_ok_def)
  let ?k = "slot_scan n (per_ctx_size s) 0"
  show ?thesis
  proof (cases "?k < n")
    case False
    with s show ?thesis by (simp add: per_ctx_alloc_def Let_def)
  next
    case True
    with s len obtain st1 where s1: "set_size sh ?k sz st = Some st1"
      using set_size_live [of st sh s ?k sz] by auto
    from alloc_loop_total [OF registry_ok_loop_ok [OF r s True s1]]
    obtain r st' where "alloc_loop sh ?k sz [] (ctx s) st1 = Some (r, st')" by blast
    with s True s1 show ?thesis by (simp add: per_ctx_alloc_def Let_def)
  qed
qed

text \<open>The three ways \<open>per_ctx_alloc\<close> ends.\<close>

lemma per_ctx_alloc_cases:
  assumes "per_ctx_alloc n sh sz st = Some (r, st')" and "shareds st sh = Some s"
  obtains (full) "\<not> slot_scan n (per_ctx_size s) 0 < n" "r = Inl EAGAIN" "st' = st"
    | (nomem) st1 where "slot_scan n (per_ctx_size s) 0 < n"
        "set_size sh (slot_scan n (per_ctx_size s) 0) sz st = Some st1"
        "alloc_loop sh (slot_scan n (per_ctx_size s) 0) sz [] (ctx s) st1 = Some (Inl ENOMEM, st')"
        "r = Inl ENOMEM"
    | (ok) st1 where "slot_scan n (per_ctx_size s) 0 < n"
        "set_size sh (slot_scan n (per_ctx_size s) 0) sz st = Some st1"
        "alloc_loop sh (slot_scan n (per_ctx_size s) 0) sz [] (ctx s) st1
           = Some (Inr (slot_scan n (per_ctx_size s) 0), st')"
        "r = Inr (slot_scan n (per_ctx_size s) 0)"
proof (cases "slot_scan n (per_ctx_size s) 0 < n")
  case False
  with assms have "r = Inl EAGAIN" "st' = st" by (auto simp: per_ctx_alloc_def Let_def)
  with False show thesis by (rule full)
next
  case True
  with assms obtain st1 where
    s1: "set_size sh (slot_scan n (per_ctx_size s) 0) sz st = Some st1" and
    l: "alloc_loop sh (slot_scan n (per_ctx_size s) 0) sz [] (ctx s) st1 = Some (r, st')"
    by (auto simp: per_ctx_alloc_def Let_def bind_eq_Some_conv)
  show thesis
  proof (cases r)
    case (Inl e)
    with alloc_loop_Inl [of sh _ sz "[]" "ctx s" st1 e st'] l have "e = ENOMEM" by simp
    with Inl True s1 l show thesis by (intro nomem [of st1]) simp_all
  next
    case (Inr k)
    with alloc_loop_Inr [of sh _ sz "[]" "ctx s" st1 k st'] l
    have "k = slot_scan n (per_ctx_size s) 0" by simp
    with Inr True s1 l show thesis by (intro ok [of st1]) simp_all
  qed
qed

lemmas run_defs =
  ex_state_def ex_ctx_def malloc_def pick_def free_def set_size_def set_data_def get_data_def
  upd_ctx_def upd_shared_def

lemma per_ctx_alloc_effect:
  assumes r: "registry_ok n sh st" and s: "shareds st sh = Some s"
  shows "\<exists>r st'. per_ctx_alloc n sh sz st = Some (r, st') \<and>
     (\<forall>c. ctxs st c = None \<longrightarrow> ctxs st' c = None) \<and>
     (\<forall>c x. ctxs st c = Some x \<longrightarrow>
        (\<exists>q. ctxs st' c = Some (x\<lparr>data := (data x)[slot_scan n (per_ctx_size s) 0 := q]\<rparr>))) \<and>
     (case r of
        Inr slot \<Rightarrow>
          slot < n \<and> slot = slot_scan n (per_ctx_size s) 0 \<and>
          shareds st' = (shareds st)(sh \<mapsto> s\<lparr>per_ctx_size := (per_ctx_size s)[slot := sz]\<rparr>) \<and>
          (\<forall>c\<in>set (ctx s). \<exists>q. get_data c slot st' = Some q \<and> q \<noteq> NULL \<and>
              bufs st q = None \<and> bufs st' q = Some (replicate sz None)) \<and>
          (\<forall>c\<in>set (ctx s). \<forall>c'\<in>set (ctx s). c \<noteq> c' \<longrightarrow>
              get_data c slot st' \<noteq> get_data c' slot st') \<and>
          (\<forall>a. bufs st a \<noteq> None \<longrightarrow> bufs st' a = bufs st a)
      | Inl e \<Rightarrow>
          shareds st' = shareds st \<and> bufs st' = bufs st \<and>
          (e = EAGAIN \<and> st' = st \<or>
           e = ENOMEM \<and>
           (\<exists>before c rest. ctx s = before @ c # rest \<and>
              get_data c (slot_scan n (per_ctx_size s) 0) st' = Some NULL \<and>
              (\<forall>c'\<in>set rest. ctxs st' c' = ctxs st c') \<and>
              (\<forall>c'\<in>set before. \<exists>q.
                  get_data c' (slot_scan n (per_ctx_size s) 0) st' = Some q \<and>
                  q \<noteq> NULL \<and> bufs st' q = None))))"
proof -
  let ?k = "slot_scan n (per_ctx_size s) 0"
  from r s have len: "length (per_ctx_size s) = n" and d: "distinct (ctx s)"
    by (auto simp: registry_ok_def)
  from per_ctx_alloc_returns [OF r] obtain r st' where
    a: "per_ctx_alloc n sh sz st = Some (r, st')" by blast
  have id: "x = x\<lparr>data := (data x)[?k := data x ! ?k]\<rparr>" for x :: kdump_ctx by simp
  from a s have "(\<forall>c. ctxs st c = None \<longrightarrow> ctxs st' c = None) \<and>
     (\<forall>c x. ctxs st c = Some x \<longrightarrow> (\<exists>q. ctxs st' c = Some (x\<lparr>data := (data x)[?k := q]\<rparr>))) \<and>
     (case r of
        Inr slot \<Rightarrow>
          slot < n \<and> slot = ?k \<and>
          shareds st' = (shareds st)(sh \<mapsto> s\<lparr>per_ctx_size := (per_ctx_size s)[slot := sz]\<rparr>) \<and>
          (\<forall>c\<in>set (ctx s). \<exists>q. get_data c slot st' = Some q \<and> q \<noteq> NULL \<and>
              bufs st q = None \<and> bufs st' q = Some (replicate sz None)) \<and>
          (\<forall>c\<in>set (ctx s). \<forall>c'\<in>set (ctx s). c \<noteq> c' \<longrightarrow>
              get_data c slot st' \<noteq> get_data c' slot st') \<and>
          (\<forall>a. bufs st a \<noteq> None \<longrightarrow> bufs st' a = bufs st a)
      | Inl e \<Rightarrow>
          shareds st' = shareds st \<and> bufs st' = bufs st \<and>
          (e = EAGAIN \<and> st' = st \<or>
           e = ENOMEM \<and>
           (\<exists>before c rest. ctx s = before @ c # rest \<and>
              get_data c ?k st' = Some NULL \<and>
              (\<forall>c'\<in>set rest. ctxs st' c' = ctxs st c') \<and>
              (\<forall>c'\<in>set before. \<exists>q. get_data c' ?k st' = Some q \<and>
                  q \<noteq> NULL \<and> bufs st' q = None))))"
  proof (cases rule: per_ctx_alloc_cases)
    case full
    have "\<exists>q. Some x = Some (x\<lparr>data := (data x)[?k := q]\<rparr>)" for x :: kdump_ctx
      using id [of x] by blast
    with full show ?thesis by simp
  next
    case (nomem st1)
    note fr = set_size_frame [OF nomem(2)]
    from alloc_loop_ctxs [OF nomem(3)] fr have 1:
      "(\<forall>c. ctxs st c = None \<longrightarrow> ctxs st' c = None) \<and>
       (\<forall>c x. ctxs st c = Some x \<longrightarrow> (\<exists>q. ctxs st' c = Some (x\<lparr>data := (data x)[?k := q]\<rparr>)))"
      by simp
    from set_size_shareds [OF nomem(2)] s have
      sh1: "shareds st1 = (shareds st)(sh \<mapsto> s\<lparr>per_ctx_size := (per_ctx_size s)[?k := sz]\<rparr>)"
      by simp
    from alloc_loop_fail_shareds [OF nomem(3)] sh1 have
      "shareds st' = (shareds st)(sh \<mapsto> s\<lparr>per_ctx_size := (per_ctx_size s)[?k := 0]\<rparr>)"
      by auto
    moreover have "(per_ctx_size s)[?k := 0] = per_ctx_size s"
      using slot_scan_free [OF nomem(1)] list_update_id [of "per_ctx_size s" ?k] by simp
    ultimately have 2: "shareds st' = shareds st" using s by (simp add: map_upd_triv)
    have "bufs st' a = bufs st a" for a
      using alloc_loop_fail_bufs [OF nomem(3), of a] d fr by (simp add: slot_ptrs_def)
    then have 3: "bufs st' = bufs st" by (simp add: fun_eq_iff)
    from alloc_loop_fail_shape [OF nomem(3)] d obtain before c rest where
      sp: "ctx s = before @ c # rest" "get_data c ?k st' = Some NULL"
        "\<forall>c'\<in>set rest. ctxs st' c' = ctxs st1 c'"
        "\<forall>c'\<in>set before. \<exists>q. get_data c' ?k st' = Some q \<and> q \<noteq> NULL \<and>
            bufs st' q = None \<and> bufs st1 q = None"
      by auto
    have 4: "\<exists>before c rest. ctx s = before @ c # rest \<and>
              get_data c ?k st' = Some NULL \<and>
              (\<forall>c'\<in>set rest. ctxs st' c' = ctxs st c') \<and>
              (\<forall>c'\<in>set before. \<exists>q. get_data c' ?k st' = Some q \<and>
                  q \<noteq> NULL \<and> bufs st' q = None)"
      using sp fr by (intro exI [of _ before] exI [of _ c] exI [of _ rest]) auto
    from 1 2 3 4 nomem(4) show ?thesis by simp
  next
    case (ok st1)
    note fr = set_size_frame [OF ok(2)]
    from alloc_loop_ctxs [OF ok(3)] fr have 1:
      "(\<forall>c. ctxs st c = None \<longrightarrow> ctxs st' c = None) \<and>
       (\<forall>c x. ctxs st c = Some x \<longrightarrow> (\<exists>q. ctxs st' c = Some (x\<lparr>data := (data x)[?k := q]\<rparr>)))"
      by simp
    from set_size_shareds [OF ok(2)] s alloc_loop_Inr [OF ok(3)] have
      2: "shareds st' = (shareds st)(sh \<mapsto> s\<lparr>per_ctx_size := (per_ctx_size s)[?k := sz]\<rparr>)"
      by simp
    have 3: "\<forall>c\<in>set (ctx s). \<exists>q. get_data c ?k st' = Some q \<and> q \<noteq> NULL \<and>
              bufs st q = None \<and> bufs st' q = Some (replicate sz None)"
      using alloc_loop_ok_get [OF ok(3) d] fr by simp
    have 4: "\<forall>c\<in>set (ctx s). \<forall>c'\<in>set (ctx s). c \<noteq> c' \<longrightarrow>
              get_data c ?k st' \<noteq> get_data c' ?k st'"
      using alloc_loop_ok_distinct [OF ok(3) d] by blast
    have 5: "\<forall>a. bufs st a \<noteq> None \<longrightarrow> bufs st' a = bufs st a"
      using alloc_loop_ok_old [OF ok(3)] fr by simp
    from 1 2 3 4 5 ok(1,4) show ?thesis by simp
  qed
  with a show ?thesis by blast
qed

lemma per_ctx_free_effect:
  assumes s: "shareds st sh = Some s" and len: "length (per_ctx_size s) = n"
    and lo: "0 \<le> slot" and hi: "slot < int n"
    and f: "freeable (nat slot) (ctx s) st"
  shows "\<exists>st'. per_ctx_free n sh slot st = Some st' \<and>
     shareds st' = (shareds st)(sh \<mapsto> s\<lparr>per_ctx_size := (per_ctx_size s)[nat slot := 0]\<rparr>) \<and>
     ctxs st' = ctxs st \<and> dicts st' = dicts st \<and> xlats st' = xlats st \<and>
     xlatctxs st' = xlatctxs st \<and>
     (\<forall>a. bufs st' a = (if a \<in> slot_ptrs (nat slot) (ctx s) st then None else bufs st a))"
proof -
  from free_all_live [OF f] obtain st1 where f1: "free_all (nat slot) (ctx s) st = Some st1"
    by blast
  note fr = free_all_frame [OF f1]
  from fr s have s1: "shareds st1 sh = Some s" by simp
  from lo hi len have k: "nat slot < length (per_ctx_size s)" by simp
  from set_size_live [OF s1 k] obtain st' where s2: "set_size sh (nat slot) 0 st1 = Some st'"
    by blast
  from s f1 s2 lo hi have 1: "per_ctx_free n sh slot st = Some st'"
    by (simp add: per_ctx_free_def)
  from set_size_shareds [OF s2] s1 fr have
    2: "shareds st' = (shareds st)(sh \<mapsto> s\<lparr>per_ctx_size := (per_ctx_size s)[nat slot := 0]\<rparr>)"
    by simp
  from set_size_frame [OF s2] fr have
    3: "ctxs st' = ctxs st \<and> dicts st' = dicts st \<and> xlats st' = xlats st \<and>
        xlatctxs st' = xlatctxs st" and b: "bufs st' = bufs st1" by simp_all
  have 4: "\<forall>a. bufs st' a = (if a \<in> slot_ptrs (nat slot) (ctx s) st then None else bufs st a)"
    using free_all_bufs [OF f1] b by simp
  from 1 2 3 4 show ?thesis by blast
qed

lemma per_ctx_free_out_of_range:
  "slot < 0 \<or> int n \<le> slot \<Longrightarrow> per_ctx_free n sh slot st = None"
  by (cases "shareds st sh") (auto simp: per_ctx_free_def)

lemma same_stores_refl: "same_stores st st"
  by (simp add: same_stores_def)

lemma same_stores_trans: "same_stores a b \<Longrightarrow> same_stores b c \<Longrightarrow> same_stores a c"
  by (simp add: same_stores_def)

lemma pick_eq:
  "pick used st =
     (case allocs st of Some p # rest \<Rightarrow> if p = NULL \<or> used p then NULL else p | _ \<Rightarrow> NULL,
      st\<lparr>allocs := tl (allocs st)\<rparr>)"
  by (simp add: pick_def split: list.splits option.splits)

lemma calloc_ctx_cases:
  obtains (fail) st1 where "calloc_ctx n st = (NULL, st1)" "same_stores st st1"
      "trace st1 = trace st" "rwlock_inits st1 = rwlock_inits st"
    | (ok) c st1 where "calloc_ctx n st = (c, st1)" "c \<noteq> NULL" "ctxs st c = None"
      "ctxs st1 = (ctxs st)(c \<mapsto> zero_ctx n)" "shareds st1 = shareds st" "dicts st1 = dicts st"
      "xlats st1 = xlats st" "xlatctxs st1 = xlatctxs st" "bufs st1 = bufs st"
      "trace st1 = trace st @ [Alloc K_ctx c]" "rwlock_inits st1 = rwlock_inits st"
proof (cases "fst (calloc_ctx n st) = NULL")
  case True
  then have "calloc_ctx n st = (NULL, st\<lparr>allocs := tl (allocs st)\<rparr>)"
    by (auto simp: calloc_ctx_def pick_eq split: if_splits)
  then show thesis by (rule fail) (simp_all add: same_stores_def)
next
  case False
  then obtain c st1 where c: "calloc_ctx n st = (c, st1)" "c \<noteq> NULL"
    by (cases "calloc_ctx n st") auto
  from c show thesis
    by (intro ok [of c st1])
      (auto simp: calloc_ctx_def pick_eq split: if_splits list.splits option.splits)
qed

lemma init_addrxlat_cases:
  obtains (fail) st1 where "init_addrxlat c st = (NULL, st1)" "same_stores st st1"
      "trace st1 = trace st" "rwlock_inits st1 = rwlock_inits st"
    | (ok) x st1 where "init_addrxlat c st = (x, st1)" "x \<noteq> NULL" "xlatctxs st x = None"
      "xlatctxs st1 = (xlatctxs st)(x \<mapsto> 1)" "shareds st1 = shareds st" "dicts st1 = dicts st"
      "xlats st1 = xlats st" "ctxs st1 = ctxs st" "bufs st1 = bufs st"
      "trace st1 = trace st @ [Alloc K_xlatctx x]" "rwlock_inits st1 = rwlock_inits st"
proof (cases "fst (init_addrxlat c st) = NULL")
  case True
  then have "init_addrxlat c st = (NULL, st\<lparr>allocs := tl (allocs st)\<rparr>)"
    by (auto simp: init_addrxlat_def pick_eq split: if_splits)
  then show thesis by (rule fail) (simp_all add: same_stores_def)
next
  case False
  then obtain x st1 where x: "init_addrxlat c st = (x, st1)" "x \<noteq> NULL"
    by (cases "init_addrxlat c st") auto
  from x show thesis
    by (intro ok [of x st1])
      (auto simp: init_addrxlat_def pick_eq split: if_splits list.splits option.splits)
qed

lemma calloc_shared_cases:
  obtains (fail) st1 where "calloc_shared n st = (NULL, st1)" "same_stores st st1"
      "trace st1 = trace st" "rwlock_inits st1 = rwlock_inits st"
    | (ok) s st1 where "calloc_shared n st = (s, st1)" "s \<noteq> NULL" "shareds st s = None"
      "shareds st1 = (shareds st)(s \<mapsto> \<lparr>refcnt = 0, ctx = [], per_ctx_size = replicate n 0\<rparr>)"
      "ctxs st1 = ctxs st" "dicts st1 = dicts st"
      "xlats st1 = xlats st" "xlatctxs st1 = xlatctxs st" "bufs st1 = bufs st"
      "trace st1 = trace st @ [Alloc K_shared s]" "rwlock_inits st1 = rwlock_inits st"
proof (cases "fst (calloc_shared n st) = NULL")
  case True
  then have "calloc_shared n st = (NULL, st\<lparr>allocs := tl (allocs st)\<rparr>)"
    by (auto simp: calloc_shared_def pick_eq split: if_splits)
  then show thesis by (rule fail) (simp_all add: same_stores_def)
next
  case False
  then obtain s st1 where s: "calloc_shared n st = (s, st1)" "s \<noteq> NULL"
    by (cases "calloc_shared n st") auto
  from s show thesis
    by (intro ok [of s st1])
      (auto simp: calloc_shared_def pick_eq split: if_splits list.splits option.splits)
qed

lemma attr_dict_new_cases:
  obtains (fail) st1 where "attr_dict_new s st = (NULL, st1)" "same_stores st st1"
      "trace st1 = trace st" "rwlock_inits st1 = rwlock_inits st"
    | (ok) d st1 where "attr_dict_new s st = (d, st1)" "d \<noteq> NULL" "dicts st d = None"
      "dicts st1 = (dicts st)(d \<mapsto> \<lparr>dict_refcnt = 1, dict_shared = s, cache_size_set = False\<rparr>)"
      "ctxs st1 = ctxs st" "shareds st1 = shareds st"
      "xlats st1 = xlats st" "xlatctxs st1 = xlatctxs st" "bufs st1 = bufs st"
      "trace st1 = trace st @ [Alloc K_dict d]" "rwlock_inits st1 = rwlock_inits st"
proof (cases "fst (attr_dict_new s st) = NULL")
  case True
  then have "attr_dict_new s st = (NULL, st\<lparr>allocs := tl (allocs st)\<rparr>)"
    by (auto simp: attr_dict_new_def pick_eq split: if_splits)
  then show thesis by (rule fail) (simp_all add: same_stores_def)
next
  case False
  then obtain d st1 where d: "attr_dict_new s st = (d, st1)" "d \<noteq> NULL"
    by (cases "attr_dict_new s st") auto
  from d show thesis
    by (intro ok [of d st1])
      (auto simp: attr_dict_new_def pick_eq split: if_splits list.splits option.splits)
qed

lemma xlat_new_cases:
  obtains (fail) st1 where "xlat_new st = (NULL, st1)" "same_stores st st1"
      "trace st1 = trace st" "rwlock_inits st1 = rwlock_inits st"
    | (ok) x st1 where "xlat_new st = (x, st1)" "x \<noteq> NULL" "xlats st x = None"
      "xlats st1 = (xlats st)(x \<mapsto> \<lparr>xlat_refcnt = 1, xlat_ctx = []\<rparr>)"
      "ctxs st1 = ctxs st" "shareds st1 = shareds st"
      "dicts st1 = dicts st" "xlatctxs st1 = xlatctxs st" "bufs st1 = bufs st"
      "trace st1 = trace st @ [Alloc K_xlat x]" "rwlock_inits st1 = rwlock_inits st"
proof (cases "fst (xlat_new st) = NULL")
  case True
  then have "xlat_new st = (NULL, st\<lparr>allocs := tl (allocs st)\<rparr>)"
    by (auto simp: xlat_new_def pick_eq split: if_splits)
  then show thesis by (rule fail) (simp_all add: same_stores_def)
next
  case False
  then obtain x st1 where x: "xlat_new st = (x, st1)" "x \<noteq> NULL"
    by (cases "xlat_new st") auto
  from x show thesis
    by (intro ok [of x st1])
      (auto simp: xlat_new_def pick_eq split: if_splits list.splits option.splits)
qed

lemma upd_ctx_eq:
  "ctxs st c = Some x \<Longrightarrow> upd_ctx c f st = Some (st\<lparr>ctxs := (ctxs st)(c \<mapsto> f x)\<rparr>)"
  by (simp add: upd_ctx_def)

lemma upd_shared_eq:
  "shareds st s = Some x \<Longrightarrow> upd_shared s f st = Some (st\<lparr>shareds := (shareds st)(s \<mapsto> f x)\<rparr>)"
  by (simp add: upd_shared_def)

lemma free_ctx_eq:
  "ctxs st c = Some x \<Longrightarrow>
     free_ctx c st = Some (st\<lparr>ctxs := (ctxs st)(c := None), trace := trace st @ [Free K_ctx c]\<rparr>)"
  by (simp add: free_ctx_def)

lemma free_shared_eq:
  "shareds st s = Some x \<Longrightarrow>
     free_shared s st
       = Some (st\<lparr>shareds := (shareds st)(s := None), trace := trace st @ [Free K_shared s]\<rparr>)"
  by (simp add: free_shared_def)

lemma addrxlat_ctx_decref_last:
  "xlatctxs st x = Some 1 \<Longrightarrow>
     addrxlat_ctx_decref x st
       = Some (st\<lparr>xlatctxs := (xlatctxs st)(x := None), trace := trace st @ [Free K_xlatctx x]\<rparr>)"
  by (simp add: addrxlat_ctx_decref_def)

lemma map_del_fresh: "m c = None \<Longrightarrow> m(c := None) = m"
  by (rule fun_upd_idem)

lemma unwound_Nil: "unwound [] = []"
  by (simp add: unwound_def)

lemma alloc_ctx_cases:
  obtains (fail) st1 evs where "alloc_ctx n st = Some (NULL, st1)" "same_stores st st1"
      "trace st1 = trace st @ unwound evs" "evs = [] \<or> (\<exists>c. evs = [Alloc K_ctx c])"
      "rwlock_inits st1 = rwlock_inits st"
    | (ok) c x st1 where "alloc_ctx n st = Some (c, st1)" "c \<noteq> NULL" "x \<noteq> NULL"
      "ctxs st c = None" "xlatctxs st x = None"
      "ctxs st1 = (ctxs st)(c \<mapsto> fresh_ctx n x)" "xlatctxs st1 = (xlatctxs st)(x \<mapsto> 1)"
      "shareds st1 = shareds st" "dicts st1 = dicts st" "xlats st1 = xlats st"
      "bufs st1 = bufs st" "trace st1 = trace st @ [Alloc K_ctx c, Alloc K_xlatctx x]"
      "rwlock_inits st1 = rwlock_inits st"
proof (cases n st rule: calloc_ctx_cases)
  case (fail st1)
  from fail(1) have "alloc_ctx n st = Some (NULL, st1)" by (simp add: alloc_ctx_def)
  with fail(2-) show ?thesis using that(1) [of st1 "[]"] by (simp add: unwound_Nil)
next
  case (ok c st1)
  let ?e = "\<lambda>y. y\<lparr>err := \<lparr>bufsz = ERRBUF, msg = []\<rparr>\<rparr>"
  let ?st2 = "st1\<lparr>ctxs := (ctxs st1)(c \<mapsto> ?e (zero_ctx n))\<rparr>"
  from ok(4) have e: "err_init c ERRBUF st1 = Some ?st2"
    by (simp add: err_init_def upd_ctx_eq)
  show ?thesis
  proof (cases c ?st2 rule: init_addrxlat_cases)
    case (fail st3)
    let ?st4 = "st3\<lparr>ctxs := (ctxs st3)(c \<mapsto> (?e (zero_ctx n))\<lparr>xlatctx := NULL\<rparr>)\<rparr>"
    let ?st5 = "?st4\<lparr>ctxs := (ctxs ?st4)
        (c \<mapsto> (?e (zero_ctx n))\<lparr>xlatctx := NULL, err := \<lparr>bufsz = ERRBUF, msg = []\<rparr>\<rparr>)\<rparr>"
    let ?st6 = "?st5\<lparr>ctxs := (ctxs ?st5)(c := None), trace := trace ?st5 @ [Free K_ctx c]\<rparr>"
    from fail(2) have c3: "ctxs st3 c = Some (?e (zero_ctx n))" by (simp add: same_stores_def)
    then have u: "upd_ctx c (\<lambda>y. y\<lparr>xlatctx := NULL\<rparr>) st3 = Some ?st4" by (simp add: upd_ctx_eq)
    have cl: "err_cleanup c ?st4 = Some ?st5" by (simp add: err_cleanup_def upd_ctx_def)
    have fc: "free_ctx c ?st5 = Some ?st6" by (simp add: free_ctx_def)
    from ok(1,2) e fail(1) u cl fc have r: "alloc_ctx n st = Some (NULL, ?st6)"
      by (simp add: alloc_ctx_def)
    have s: "same_stores st ?st6"
      using ok(3-9) fail(2) by (simp add: same_stores_def map_del_fresh)
    have t: "trace ?st6 = trace st @ unwound [Alloc K_ctx c]"
      using ok(10) fail(3) by (simp add: unwound_def)
    have l: "rwlock_inits ?st6 = rwlock_inits st" using ok(11) fail(4) by simp
    from r s t _ l show ?thesis by (rule that(1)) simp
  next
    case (ok x st3)
    let ?st4 = "st3\<lparr>ctxs := (ctxs st3)(c \<mapsto> (?e (zero_ctx n))\<lparr>xlatctx := x\<rparr>)\<rparr>"
    from ok(8) have c3: "ctxs st3 c = Some (?e (zero_ctx n))" by simp
    then have u: "upd_ctx c (\<lambda>y. y\<lparr>xlatctx := x\<rparr>) st3 = Some ?st4" by (simp add: upd_ctx_eq)
    from \<open>calloc_ctx n st = (c, st1)\<close> \<open>c \<noteq> NULL\<close> e ok(1,2) u
    have r: "alloc_ctx n st = Some (c, ?st4)" by (simp add: alloc_ctx_def)
    have f: "ctxs ?st4 = (ctxs st)(c \<mapsto> fresh_ctx n x)"
      using ok(8) \<open>ctxs st1 = (ctxs st)(c \<mapsto> zero_ctx n)\<close> by (simp add: fresh_ctx_def zero_ctx_def)
    have x1: "xlatctxs st x = None" using ok(3) \<open>xlatctxs st1 = xlatctxs st\<close> by simp
    have x2: "xlatctxs ?st4 = (xlatctxs st)(x \<mapsto> 1)"
      using ok(4) \<open>xlatctxs st1 = xlatctxs st\<close> by simp
    have t: "trace ?st4 = trace st @ [Alloc K_ctx c, Alloc K_xlatctx x]"
      using ok(10) \<open>trace st1 = trace st @ [Alloc K_ctx c]\<close> by simp
    show ?thesis
      using r \<open>c \<noteq> NULL\<close> \<open>x \<noteq> NULL\<close> \<open>ctxs st c = None\<close> x1 f x2
    proof (rule that(2))
      show "shareds ?st4 = shareds st" using ok(5) \<open>shareds st1 = shareds st\<close> by simp
      show "dicts ?st4 = dicts st" using ok(6) \<open>dicts st1 = dicts st\<close> by simp
      show "xlats ?st4 = xlats st" using ok(7) \<open>xlats st1 = xlats st\<close> by simp
      show "bufs ?st4 = bufs st" using ok(9) \<open>bufs st1 = bufs st\<close> by simp
      show "trace ?st4 = trace st @ [Alloc K_ctx c, Alloc K_xlatctx x]" by (rule t)
      show "rwlock_inits ?st4 = rwlock_inits st"
        using ok(11) \<open>rwlock_inits st1 = rwlock_inits st\<close> by simp
    qed
  qed
qed


lemma alloc_shared_cases:
  obtains (fail) st1 evs where "alloc_shared n st = Some (NULL, st1)" "same_stores st st1"
      "trace st1 = trace st @ unwound evs" "evs = [] \<or> (\<exists>s. evs = [Alloc K_shared s])"
    | (ok) s st1 where "alloc_shared n st = Some (s, st1)" "s \<noteq> NULL" "shareds st s = None"
      "shareds st1 = (shareds st)(s \<mapsto> \<lparr>refcnt = 1, ctx = [], per_ctx_size = replicate n 0\<rparr>)"
      "ctxs st1 = ctxs st" "dicts st1 = dicts st" "xlats st1 = xlats st"
      "xlatctxs st1 = xlatctxs st" "bufs st1 = bufs st"
      "trace st1 = trace st @ [Alloc K_shared s]"
proof (cases n st rule: calloc_shared_cases)
  case (fail st1)
  from fail(1) have "alloc_shared n st = Some (NULL, st1)" by (simp add: alloc_shared_def)
  with fail(2-) show ?thesis using that(1) [of st1 "[]"] by (simp add: unwound_Nil)
next
  case (ok s st1)
  let ?z = "\<lparr>refcnt = 0, ctx = [], per_ctx_size = replicate n 0\<rparr>"
  let ?st2 = "st1\<lparr>shareds := (shareds st1)(s \<mapsto> ?z\<lparr>ctx := []\<rparr>)\<rparr>"
  from ok(4) have u: "upd_shared s (\<lambda>y. y\<lparr>ctx := []\<rparr>) st1 = Some ?st2"
    by (simp add: upd_shared_eq)
  obtain b st3 where l: "rwlock_init ?st2 = (b, st3)" by (cases "rwlock_init ?st2")
  then have st3: "st3 = ?st2\<lparr>rwlock_inits := tl (rwlock_inits ?st2)\<rparr>"
    by (auto simp: rwlock_init_def split: list.splits)
  show ?thesis
  proof (cases b)
    case False
    let ?st4 = "st3\<lparr>shareds := (shareds st3)(s := None), trace := trace st3 @ [Free K_shared s]\<rparr>"
    have f: "free_shared s st3 = Some ?st4" unfolding st3 by (simp add: free_shared_def)
    from ok(1,2) u l False f have r: "alloc_shared n st = Some (NULL, ?st4)"
      by (simp add: alloc_shared_def)
    have ss: "same_stores st ?st4" unfolding st3 using ok(3-9)
      by (simp add: same_stores_def map_del_fresh)
    have t: "trace ?st4 = trace st @ unwound [Alloc K_shared s]"
      unfolding st3 using ok(10) by (simp add: unwound_def)
    from r ss t show ?thesis by (rule that(1)) simp
  next
    case True
    let ?st4 = "st3\<lparr>shareds := (shareds st3)(s \<mapsto> ?z\<lparr>ctx := [], refcnt := 1\<rparr>)\<rparr>"
    have u2: "upd_shared s (\<lambda>y. y\<lparr>refcnt := 1\<rparr>) st3 = Some ?st4"
      unfolding st3 by (simp add: upd_shared_def)
    from ok(1,2) u l True u2 have r: "alloc_shared n st = Some (s, ?st4)"
      by (simp add: alloc_shared_def)
    show ?thesis using r \<open>s \<noteq> NULL\<close> \<open>shareds st s = None\<close>
    proof (rule that(2))
      show "shareds ?st4 = (shareds st)(s \<mapsto> \<lparr>refcnt = 1, ctx = [], per_ctx_size = replicate n 0\<rparr>)"
        unfolding st3 using ok(4) by simp
      show "ctxs ?st4 = ctxs st" unfolding st3 using ok(5) by simp
      show "dicts ?st4 = dicts st" unfolding st3 using ok(6) by simp
      show "xlats ?st4 = xlats st" unfolding st3 using ok(7) by simp
      show "xlatctxs ?st4 = xlatctxs st" unfolding st3 using ok(8) by simp
      show "bufs ?st4 = bufs st" unfolding st3 using ok(9) by simp
      show "trace ?st4 = trace st @ [Alloc K_shared s]" unfolding st3 using ok(10) by simp
    qed
  qed
qed

text \<open>The three error labels of \<open>kdump_new\<close>, on a context whose objects have one reference each.\<close>

lemma kdump_new_err_eq:
  assumes "ctxs st c = Some y" and "xlatctxs st (xlatctx y) = Some 1"
  shows "kdump_new_err c st =
     Some (NULL, st\<lparr>xlatctxs := (xlatctxs st)(xlatctx y := None),
                    ctxs := (ctxs st)(c := None),
                    trace := trace st @ [Free K_xlatctx (xlatctx y), Free K_ctx c]\<rparr>)"
  using assms by (simp add: kdump_new_err_def addrxlat_ctx_decref_def free_ctx_def)

lemma kdump_new_err_dict_eq:
  assumes "ctxs st c = Some y" and "xlatctxs st (xlatctx y) = Some 1"
    and "shareds st (shared y) = Some s" and "refcnt s = 1"
  shows "kdump_new_err_dict c st =
     Some (NULL, st\<lparr>shareds := (shareds st)(shared y := None),
                    xlatctxs := (xlatctxs st)(xlatctx y := None),
                    ctxs := (ctxs st)(c := None),
                    trace := trace st @ [Free K_shared (shared y), Free K_xlatctx (xlatctx y),
                                         Free K_ctx c]\<rparr>)"
  using assms
  by (simp add: kdump_new_err_dict_def shared_decref_def shared_decref_locked_def upd_shared_def
      shared_free_def free_shared_def kdump_new_err_def addrxlat_ctx_decref_def free_ctx_def)

lemma kdump_new_err_xlat_eq:
  assumes "ctxs st c = Some y" and "xlatctxs st (xlatctx y) = Some 1"
    and "shareds st (shared y) = Some s" and "refcnt s = 1"
    and "dicts st (dict y) = Some d" and "dict_refcnt d = 1"
  shows "kdump_new_err_xlat c st =
     Some (NULL, st\<lparr>dicts := (dicts st)(dict y := None),
                    shareds := (shareds st)(shared y := None),
                    xlatctxs := (xlatctxs st)(xlatctx y := None),
                    ctxs := (ctxs st)(c := None),
                    trace := trace st @ [Free K_dict (dict y), Free K_shared (shared y),
                                         Free K_xlatctx (xlatctx y), Free K_ctx c]\<rparr>)"
  using assms
  by (simp add: kdump_new_err_xlat_def attr_dict_decref_def
      kdump_new_err_dict_def shared_decref_def shared_decref_locked_def upd_shared_def
      shared_free_def free_shared_def kdump_new_err_def addrxlat_ctx_decref_def free_ctx_def)

lemma kdump_new_cases:
  obtains (fail) st' evs where "kdump_new n st = Some (NULL, st')" "same_stores st st'"
      "trace st' = trace st @ unwound evs"
      "\<exists>c x s d t k. k < 5 \<and> evs = take k [Alloc K_ctx c, Alloc K_xlatctx x, Alloc K_shared s,
          Alloc K_dict d, Alloc K_xlat t]"
    | (ok) c x s d t st' where "kdump_new n st = Some (c, st')"
      "c \<noteq> NULL" "x \<noteq> NULL" "s \<noteq> NULL" "d \<noteq> NULL" "t \<noteq> NULL"
      "ctxs st c = None" "xlatctxs st x = None" "shareds st s = None" "dicts st d = None"
      "xlats st t = None"
      "ctxs st' = (ctxs st)(c \<mapsto> (fresh_ctx n x)\<lparr>shared := s, dict := d, xlat := t\<rparr>)"
      "xlatctxs st' = (xlatctxs st)(x \<mapsto> 1)"
      "shareds st' = (shareds st)(s \<mapsto> \<lparr>refcnt = 1, ctx = [c], per_ctx_size = replicate n 0\<rparr>)"
      "dicts st' = (dicts st)(d \<mapsto> \<lparr>dict_refcnt = 1, dict_shared = s, cache_size_set = True\<rparr>)"
      "xlats st' = (xlats st)(t \<mapsto> \<lparr>xlat_refcnt = 1, xlat_ctx = [c]\<rparr>)"
      "bufs st' = bufs st"
      "trace st' = trace st @ [Alloc K_ctx c, Alloc K_xlatctx x, Alloc K_shared s,
          Alloc K_dict d, Alloc K_xlat t]"
proof (cases n st rule: alloc_ctx_cases)
  case (fail st1 evs)
  from fail(1) have r: "kdump_new n st = Some (NULL, st1)" by (simp add: kdump_new_def)
  from fail(4) have "\<exists>c x s d t k. k < 5 \<and> evs = take k [Alloc K_ctx c, Alloc K_xlatctx x,
      Alloc K_shared s, Alloc K_dict d, Alloc K_xlat t]"
  proof
    assume "evs = []"
    then have "(0::nat) < 5 \<and> evs = take 0 [Alloc K_ctx 0, Alloc K_xlatctx 0,
      Alloc K_shared 0, Alloc K_dict 0, Alloc K_xlat 0]" by simp
    then show ?thesis by blast
  next
    assume "\<exists>c. evs = [Alloc K_ctx c]"
    then obtain c where "evs = [Alloc K_ctx c]" by blast
    then have "(1::nat) < 5 \<and> evs = take 1 [Alloc K_ctx c, Alloc K_xlatctx 0,
      Alloc K_shared 0, Alloc K_dict 0, Alloc K_xlat 0]" by simp
    then show ?thesis by blast
  qed
  with r fail(2,3) show ?thesis by (rule that(1))
next
  case (ok c x st1)
  note a = ok
  let ?fa = "fresh_ctx n x"
  have xf: "xlatctx ?fa = x" by (simp add: fresh_ctx_def)
  show ?thesis
  proof (cases n st1 rule: alloc_shared_cases)
    case (fail st2 evs)
    let ?yy = "?fa\<lparr>shared := NULL\<rparr>"
    let ?st3 = "st2\<lparr>ctxs := (ctxs st2)(c \<mapsto> ?yy)\<rparr>"
    from fail(2) a(6) have c2: "ctxs st2 c = Some ?fa" by (simp add: same_stores_def)
    then have u: "upd_ctx c (\<lambda>y. y\<lparr>shared := NULL\<rparr>) st2 = Some ?st3" by (simp add: upd_ctx_eq)
    have e: "kdump_new_err c ?st3 =
       Some (NULL, ?st3\<lparr>xlatctxs := (xlatctxs ?st3)(xlatctx ?yy := None),
                    ctxs := (ctxs ?st3)(c := None),
                    trace := trace ?st3 @ [Free K_xlatctx (xlatctx ?yy), Free K_ctx c]\<rparr>)"
      (is "_ = Some (NULL, ?st')")
      using fail(2) a(7) by (intro kdump_new_err_eq) (simp_all add: same_stores_def xf)
    from a(1,2) fail(1) u e have r: "kdump_new n st = Some (NULL, ?st')"
      by (simp add: kdump_new_def)
    have ss: "same_stores st ?st'"
      using fail(2) a(4-11) by (simp add: same_stores_def xf map_del_fresh)
    have t: "trace ?st' = trace st @ unwound ([Alloc K_ctx c, Alloc K_xlatctx x] @ evs)"
      using fail(3) a(12) by (simp add: unwound_def xf)
    from fail(4) have "\<exists>c' x' s d t k. k < 5 \<and> [Alloc K_ctx c, Alloc K_xlatctx x] @ evs
        = take k [Alloc K_ctx c', Alloc K_xlatctx x', Alloc K_shared s, Alloc K_dict d, Alloc K_xlat t]"
    proof
      assume "evs = []"
      then have "(2::nat) < 5 \<and> [Alloc K_ctx c, Alloc K_xlatctx x] @ evs
        = take 2 [Alloc K_ctx c, Alloc K_xlatctx x, Alloc K_shared 0, Alloc K_dict 0, Alloc K_xlat 0]"
        by (simp add: numeral_2_eq_2)
      then show ?thesis by blast
    next
      assume "\<exists>s. evs = [Alloc K_shared s]"
      then obtain s where "evs = [Alloc K_shared s]" by blast
      then have "(3::nat) < 5 \<and> [Alloc K_ctx c, Alloc K_xlatctx x] @ evs
        = take 3 [Alloc K_ctx c, Alloc K_xlatctx x, Alloc K_shared s, Alloc K_dict 0, Alloc K_xlat 0]"
        by (simp add: numeral_3_eq_3)
      then show ?thesis by blast
    qed
    with r ss t show ?thesis by (rule that(1))
  next
    case (ok s st2)
    note b = ok
    let ?fb = "?fa\<lparr>shared := s\<rparr>"
    let ?st3 = "st2\<lparr>ctxs := (ctxs st2)(c \<mapsto> ?fb)\<rparr>"
    let ?s1 = "\<lparr>refcnt = 1, ctx = [c], per_ctx_size = replicate n 0\<rparr>"
    let ?st4 = "?st3\<lparr>shareds := (shareds ?st3)(s \<mapsto> ?s1)\<rparr>"
    from b(5) a(6) have c2: "ctxs st2 c = Some ?fa" by simp
    then have u3: "upd_ctx c (\<lambda>y. y\<lparr>shared := s\<rparr>) st2 = Some ?st3" by (simp add: upd_ctx_eq)
    have u4: "list_add_shared c s ?st3 = Some ?st4"
      using b(4) by (simp add: list_add_shared_def upd_shared_def)
    show ?thesis
    proof (cases s ?st4 rule: attr_dict_new_cases)
      case (fail st5)
      let ?yy = "?fb\<lparr>dict := NULL\<rparr>"
      let ?st6 = "st5\<lparr>ctxs := (ctxs st5)(c \<mapsto> ?yy)\<rparr>"
      from fail(2) have c5: "ctxs st5 c = Some ?fb" by (simp add: same_stores_def)
      then have u6: "upd_ctx c (\<lambda>y. y\<lparr>dict := NULL\<rparr>) st5 = Some ?st6" by (simp add: upd_ctx_eq)
      have e: "kdump_new_err_dict c ?st6 =
         Some (NULL, ?st6\<lparr>shareds := (shareds ?st6)(shared ?yy := None),
                    xlatctxs := (xlatctxs ?st6)(xlatctx ?yy := None),
                    ctxs := (ctxs ?st6)(c := None),
                    trace := trace ?st6 @ [Free K_shared (shared ?yy), Free K_xlatctx (xlatctx ?yy),
                                         Free K_ctx c]\<rparr>)"
        (is "_ = Some (NULL, ?st')")
        using fail(2) a(7) b(4,8)
        by (intro kdump_new_err_dict_eq [where s = ?s1]) (simp_all add: same_stores_def xf)
      from a(1,2) b(1,2) u3 u4 fail(1) u6 e have r: "kdump_new n st = Some (NULL, ?st')"
        by (simp add: kdump_new_def)
      have ss: "same_stores st ?st'"
        using fail(2) a(4-11) b(3-9) by (simp add: same_stores_def xf map_del_fresh)
      have t: "trace ?st' = trace st @ unwound [Alloc K_ctx c, Alloc K_xlatctx x, Alloc K_shared s]"
        using fail(3) a(12) b(10) by (simp add: unwound_def xf)
      have "(3::nat) < 5 \<and> [Alloc K_ctx c, Alloc K_xlatctx x, Alloc K_shared s]
        = take 3 [Alloc K_ctx c, Alloc K_xlatctx x, Alloc K_shared s, Alloc K_dict 0, Alloc K_xlat 0]"
        by (simp add: numeral_3_eq_3)
      then have "\<exists>c' x' s' d t k. k < 5 \<and> [Alloc K_ctx c, Alloc K_xlatctx x, Alloc K_shared s]
        = take k [Alloc K_ctx c', Alloc K_xlatctx x', Alloc K_shared s', Alloc K_dict d, Alloc K_xlat t]"
        by blast
      with r ss t show ?thesis by (rule that(1))
    next
      case (ok d st5)
      note dd = ok
      let ?fc = "?fb\<lparr>dict := d\<rparr>"
      let ?st6 = "st5\<lparr>ctxs := (ctxs st5)(c \<mapsto> ?fc)\<rparr>"
      let ?d1 = "\<lparr>dict_refcnt = 1, dict_shared = s, cache_size_set = False\<rparr>"
      from dd(5) have c5: "ctxs st5 c = Some ?fb" by simp
      then have u6: "upd_ctx c (\<lambda>y. y\<lparr>dict := d\<rparr>) st5 = Some ?st6" by (simp add: upd_ctx_eq)
      show ?thesis
      proof (cases ?st6 rule: xlat_new_cases)
        case (fail st7)
        let ?yy = "?fc\<lparr>xlat := NULL\<rparr>"
        let ?st8 = "st7\<lparr>ctxs := (ctxs st7)(c \<mapsto> ?yy)\<rparr>"
        from fail(2) have c7: "ctxs st7 c = Some ?fc" by (simp add: same_stores_def)
        then have u8: "upd_ctx c (\<lambda>y. y\<lparr>xlat := NULL\<rparr>) st7 = Some ?st8"
          by (simp add: upd_ctx_eq)
        have e: "kdump_new_err_xlat c ?st8 =
           Some (NULL, ?st8\<lparr>dicts := (dicts ?st8)(dict ?yy := None),
                    shareds := (shareds ?st8)(shared ?yy := None),
                    xlatctxs := (xlatctxs ?st8)(xlatctx ?yy := None),
                    ctxs := (ctxs ?st8)(c := None),
                    trace := trace ?st8 @ [Free K_dict (dict ?yy), Free K_shared (shared ?yy),
                                         Free K_xlatctx (xlatctx ?yy), Free K_ctx c]\<rparr>)"
          (is "_ = Some (NULL, ?st')")
          using fail(2) a(7) b(4,8) dd(4,6,8)
          by (intro kdump_new_err_xlat_eq [where s = ?s1 and d = ?d1])
            (simp_all add: same_stores_def xf)
        from a(1,2) b(1,2) u3 u4 dd(1,2) u6 fail(1) u8 e
        have r: "kdump_new n st = Some (NULL, ?st')"
          by (simp add: kdump_new_def)
        have ss: "same_stores st ?st'"
          using fail(2) a(4-11) b(3-9) dd(3-9) by (simp add: same_stores_def xf map_del_fresh)
        have t: "trace ?st' = trace st @ unwound [Alloc K_ctx c, Alloc K_xlatctx x,
            Alloc K_shared s, Alloc K_dict d]"
          using fail(3) a(12) b(10) dd(10) by (simp add: unwound_def xf)
        have "(4::nat) < 5 \<and> [Alloc K_ctx c, Alloc K_xlatctx x, Alloc K_shared s, Alloc K_dict d]
          = take 4 [Alloc K_ctx c, Alloc K_xlatctx x, Alloc K_shared s, Alloc K_dict d, Alloc K_xlat 0]"
          by (simp add: eval_nat_numeral)
        then have "\<exists>c' x' s' d' t k. k < 5 \<and>
          [Alloc K_ctx c, Alloc K_xlatctx x, Alloc K_shared s, Alloc K_dict d]
          = take k [Alloc K_ctx c', Alloc K_xlatctx x', Alloc K_shared s', Alloc K_dict d', Alloc K_xlat t]"
          by blast
        with r ss t show ?thesis by (rule that(1))
      next
        case (ok t st7)
        note tt = ok
        let ?fd = "?fc\<lparr>xlat := t\<rparr>"
        let ?st8 = "st7\<lparr>ctxs := (ctxs st7)(c \<mapsto> ?fd)\<rparr>"
        let ?st9 = "?st8\<lparr>xlats := (xlats ?st8)(t \<mapsto> \<lparr>xlat_refcnt = 1, xlat_ctx = [c]\<rparr>)\<rparr>"
        let ?st10 = "?st9\<lparr>dicts := (dicts ?st9)(d \<mapsto> ?d1\<lparr>cache_size_set := True\<rparr>)\<rparr>"
        from tt(5) have c7: "ctxs st7 c = Some ?fc" by simp
        then have u8: "upd_ctx c (\<lambda>y. y\<lparr>xlat := t\<rparr>) st7 = Some ?st8" by (simp add: upd_ctx_eq)
        have u9: "list_add_xlat c t ?st8 = Some ?st9"
          using tt(4) by (simp add: list_add_xlat_def)
        have u10: "set_attr_number_cache_size c ?st9 = Some ?st10"
          using tt(7) dd(4) by (simp add: set_attr_number_cache_size_def)
        from a(1,2) b(1,2) u3 u4 dd(1,2) u6 tt(1,2) u8 u9 u10
        have r: "kdump_new n st = Some (c, ?st10)"
          by (simp add: kdump_new_def)
        show ?thesis
          using r \<open>c \<noteq> NULL\<close> \<open>x \<noteq> NULL\<close> \<open>s \<noteq> NULL\<close> \<open>d \<noteq> NULL\<close> \<open>t \<noteq> NULL\<close>
            \<open>ctxs st c = None\<close> \<open>xlatctxs st x = None\<close>
        proof (rule that(2))
          show "shareds st s = None" using b(3) a(8) by simp
          show "dicts st d = None" using dd(3) a(9) b(6) by simp
          show "xlats st t = None" using tt(3) a(10) b(7) dd(7) by simp
          show "ctxs ?st10 = (ctxs st)(c \<mapsto> (fresh_ctx n x)\<lparr>shared := s, dict := d, xlat := t\<rparr>)"
            using tt(5) dd(5) b(5) a(6) by simp
          show "xlatctxs ?st10 = (xlatctxs st)(x \<mapsto> 1)" using tt(8) dd(8) b(8) a(7) by simp
          show "shareds ?st10 = (shareds st)(s \<mapsto> ?s1)" using tt(6) dd(6) b(4) a(8) by simp
          show "dicts ?st10 = (dicts st)(d \<mapsto> \<lparr>dict_refcnt = 1, dict_shared = s, cache_size_set = True\<rparr>)"
            using tt(7) dd(4) b(6) a(9) by simp
          show "xlats ?st10 = (xlats st)(t \<mapsto> \<lparr>xlat_refcnt = 1, xlat_ctx = [c]\<rparr>)"
            using tt(4) dd(7) b(7) a(10) by simp
          show "bufs ?st10 = bufs st" using tt(9) dd(9) b(9) a(11) by simp
          show "trace ?st10 = trace st @ [Alloc K_ctx c, Alloc K_xlatctx x, Alloc K_shared s,
              Alloc K_dict d, Alloc K_xlat t]"
            using tt(10) dd(10) b(10) a(12) by simp
        qed
      qed
    qed
  qed
qed

lemmas new_defs =
  kdump_new_def alloc_ctx_def alloc_shared_def calloc_ctx_def calloc_shared_def pick_def
  err_init_def err_cleanup_def init_addrxlat_def rwlock_init_def upd_ctx_def upd_shared_def
  list_add_shared_def list_add_xlat_def attr_dict_new_def xlat_new_def
  set_attr_number_cache_size_def kdump_new_err_def kdump_new_err_dict_def
  kdump_new_err_xlat_def shared_decref_def shared_decref_locked_def shared_free_def
  free_shared_def free_ctx_def addrxlat_ctx_decref_def attr_dict_decref_def zero_ctx_def
  init_state_def

lemma clone_unwind_frame:
  "clone_unwind sizes c slot st = Some st' \<Longrightarrow>
     ctxs st' = ctxs st \<and> shareds st' = shareds st \<and> dicts st' = dicts st \<and>
     xlats st' = xlats st \<and> xlatctxs st' = xlatctxs st \<and> allocs st' = allocs st \<and>
     rwlock_inits st' = rwlock_inits st"
proof (induction slot arbitrary: st)
  case 0
  then show ?case by simp
next
  case (Suc slot)
  show ?case
  proof (cases "sizes ! slot = 0")
    case True
    with Suc show ?thesis by simp
  next
    case False
    with Suc.prems obtain p st1 where
      f: "free p st = Some st1" and r: "clone_unwind sizes c slot st1 = Some st'"
      by (auto simp: bind_eq_Some_conv)
    from Suc.IH [OF r] free_frame [OF f] show ?thesis by simp
  qed
qed

lemma clone_ptrs_Suc:
  "clone_ptrs sizes c (Suc slot) st =
     (if sizes ! slot = 0 then {}
      else case get_data c slot st of None \<Rightarrow> {} | Some p \<Rightarrow> if p = NULL then {} else {p})
       \<union> clone_ptrs sizes c slot st"
  by (auto simp: clone_ptrs_def less_Suc_eq split: option.splits if_splits)

lemma clone_ptrs_0: "clone_ptrs sizes c 0 st = {}"
  by (simp add: clone_ptrs_def)

lemma clone_ptrs_ctxs: "ctxs st' = ctxs st \<Longrightarrow> clone_ptrs sizes c slot st' = clone_ptrs sizes c slot st"
  by (simp add: clone_ptrs_def get_data_def)

lemma clone_unwind_bufs:
  "clone_unwind sizes c slot st = Some st' \<Longrightarrow>
     bufs st' a = (if a \<in> clone_ptrs sizes c slot st then None else bufs st a)"
proof (induction slot arbitrary: st)
  case 0
  then show ?case by (simp add: clone_ptrs_0)
next
  case (Suc slot)
  show ?case
  proof (cases "sizes ! slot = 0")
    case True
    with Suc show ?thesis by (simp add: clone_ptrs_Suc)
  next
    case False
    with Suc.prems obtain p st1 where
      g: "get_data c slot st = Some p" and
      f: "free p st = Some st1" and r: "clone_unwind sizes c slot st1 = Some st'"
      by (auto simp: bind_eq_Some_conv)
    from free_frame [OF f] have "clone_ptrs sizes c slot st1 = clone_ptrs sizes c slot st"
      by (intro clone_ptrs_ctxs) simp
    with Suc.IH [OF r] have 1:
      "bufs st' a = (if a \<in> clone_ptrs sizes c slot st then None else bufs st1 a)" by simp
    have 2: "clone_ptrs sizes c (Suc slot) st
        = (if p = NULL then {} else {p}) \<union> clone_ptrs sizes c slot st"
      using g False by (simp add: clone_ptrs_Suc)
    from free_bufs [OF f] have 3: "bufs st1 a = (if p \<noteq> NULL \<and> a = p then None else bufs st a)"
      by (cases "p = NULL") simp_all
    show ?thesis unfolding 1 2 3 by simp
  qed
qed

lemma clone_ok_lower: "clone_ok n sizes c (Suc slot) st \<Longrightarrow> clone_ok n sizes c slot st"
  by (auto simp: clone_ok_def)

lemma clone_unwind_total:
  "clone_ok n sizes c slot st \<Longrightarrow> \<exists>st'. clone_unwind sizes c slot st = Some st'"
proof (induction slot arbitrary: st)
  case 0
  then show ?case by simp
next
  case (Suc slot)
  show ?case
  proof (cases "sizes ! slot = 0")
    case True
    with Suc.IH [OF clone_ok_lower [OF Suc.prems]] show ?thesis by simp
  next
    case False
    from Suc.prems obtain x where
      x: "ctxs st c = Some x" "length (data x) = n" "Suc slot \<le> n"
        "\<forall>j < Suc slot. sizes ! j \<noteq> 0 \<longrightarrow> data x ! j \<noteq> NULL \<and> bufs st (data x ! j) \<noteq> None"
        "\<forall>i < Suc slot. \<forall>j < Suc slot. i \<noteq> j \<longrightarrow> sizes ! i \<noteq> 0 \<longrightarrow> sizes ! j \<noteq> 0 \<longrightarrow>
           data x ! i \<noteq> data x ! j"
      by (auto simp: clone_ok_def)
    let ?p = "data x ! slot"
    from x have g: "get_data c slot st = Some ?p" by (simp add: get_data_def)
    from x(4) False have live: "?p \<noteq> NULL" "bufs st ?p \<noteq> None" by auto
    then obtain st1 where f: "free ?p st = Some st1" using free_live [of ?p st] by auto
    from free_frame [OF f] free_bufs [OF f] live have
      c1: "ctxs st1 = ctxs st" and b1: "bufs st1 = (bufs st)(?p := None)" by simp_all
    have "clone_ok n sizes c slot st1"
      unfolding clone_ok_def
    proof (intro conjI exI [of _ x] allI impI)
      show "slot \<le> n" using x(3) by simp
      show "ctxs st1 c = Some x" using c1 x(1) by simp
      show "length (data x) = n" by (rule x(2))
    next
      fix j assume j: "j < slot" "sizes ! j \<noteq> 0"
      with x(4) show "data x ! j \<noteq> NULL" by simp
      from j x(5) False have "data x ! j \<noteq> ?p" by simp
      with j x(4) b1 show "bufs st1 (data x ! j) \<noteq> None" by simp
    next
      fix i j assume "i < slot" "j < slot" "i \<noteq> j" "sizes ! i \<noteq> 0" "sizes ! j \<noteq> 0"
      with x(5) show "data x ! i \<noteq> data x ! j" by simp
    qed
    from Suc.IH [OF this] g f False show ?thesis by simp
  qed
qed

lemma clone_slots_cases:
  assumes "clone_slots n sizes c slot st = Some (ok, st')"
  obtains (finished) "\<not> slot < n" "ok" "st' = st"
    | (skip) "slot < n" "sizes ! slot = 0" "clone_slots n sizes c (Suc slot) st = Some (ok, st')"
    | (fail) st1 st2 where "slot < n" "sizes ! slot \<noteq> 0"
        "malloc (sizes ! slot) st = (NULL, st1)" "set_data c slot NULL st1 = Some st2"
        "clone_unwind sizes c slot st2 = Some st'" "\<not> ok"
    | (step) p st1 st2 where "slot < n" "sizes ! slot \<noteq> 0"
        "malloc (sizes ! slot) st = (p, st1)" "p \<noteq> NULL" "set_data c slot p st1 = Some st2"
        "clone_slots n sizes c (Suc slot) st2 = Some (ok, st')"
proof (cases "slot < n")
  case False
  with assms have "ok" "st' = st" by (simp_all add: clone_slots.simps)
  with False show thesis by (rule finished)
next
  case True
  note lt = this
  show thesis
  proof (cases "sizes ! slot = 0")
    case True
    with lt assms have "clone_slots n sizes c (Suc slot) st = Some (ok, st')"
      by (subst (asm) clone_slots.simps) simp
    with lt True show thesis by (rule skip)
  next
    case False
    obtain p st1 where m: "malloc (sizes ! slot) st = (p, st1)"
      by (cases "malloc (sizes ! slot) st")
    show thesis
    proof (cases "p = NULL")
      case True
      with assms lt False m obtain st2 where
        "set_data c slot NULL st1 = Some st2" "clone_unwind sizes c slot st2 = Some st'" "\<not> ok"
        by (subst (asm) clone_slots.simps) (auto simp: bind_eq_Some_conv)
      with lt False m True show thesis by (intro fail [of st1 st2]) simp_all
    next
      case np: False
      with assms lt False m obtain st2 where
        "set_data c slot p st1 = Some st2" "clone_slots n sizes c (Suc slot) st2 = Some (ok, st')"
        by (subst (asm) clone_slots.simps) (auto simp: bind_eq_Some_conv)
      with lt False m np show thesis by (intro step [of p st1 st2]) simp_all
    qed
  qed
qed

lemma clone_ok_skip:
  "clone_ok n sizes c slot st \<Longrightarrow> slot < n \<Longrightarrow> sizes ! slot = 0 \<Longrightarrow>
     clone_ok n sizes c (Suc slot) st"
  unfolding clone_ok_def
  by (elim conjE exE, intro conjI exI) (auto simp: less_Suc_eq)

lemma clone_ok_set:
  assumes "clone_ok n sizes c slot st" "slot < n" "malloc sz st = (p, st1)"
  shows "\<exists>st2. set_data c slot p st1 = Some st2"
proof -
  from assms(1) obtain x where "ctxs st c = Some x" "length (data x) = n"
    by (auto simp: clone_ok_def)
  with assms(2) malloc_frame [OF assms(3)] show ?thesis by (simp add: set_data_def)
qed

lemma clone_ok_fail:
  assumes ok: "clone_ok n sizes c slot st" and lt: "slot < n"
    and m: "malloc sz st = (NULL, st1)" and s: "set_data c slot NULL st1 = Some st2"
  shows "clone_ok n sizes c slot st2"
proof -
  from ok obtain x where
    x: "ctxs st c = Some x" "length (data x) = n"
      "\<forall>j < slot. sizes ! j \<noteq> 0 \<longrightarrow> data x ! j \<noteq> NULL \<and> bufs st (data x ! j) \<noteq> None"
      "\<forall>i < slot. \<forall>j < slot. i \<noteq> j \<longrightarrow> sizes ! i \<noteq> 0 \<longrightarrow> sizes ! j \<noteq> 0 \<longrightarrow>
           data x ! i \<noteq> data x ! j"
    by (auto simp: clone_ok_def)
  from set_data_ctxs [OF s] malloc_frame [OF m] x(1) have
    c2: "ctxs st2 c = Some (x\<lparr>data := (data x)[slot := NULL]\<rparr>)" by auto
  have b2: "bufs st2 = bufs st" using malloc_bufs [OF m] set_data_frame [OF s] by simp
  show ?thesis unfolding clone_ok_def
  proof (intro conjI exI [of _ "x\<lparr>data := (data x)[slot := NULL]\<rparr>"] allI impI)
    show "slot \<le> n" using lt by simp
    show "ctxs st2 c = Some (x\<lparr>data := (data x)[slot := NULL]\<rparr>)" by (rule c2)
    show "length (data (x\<lparr>data := (data x)[slot := NULL]\<rparr>)) = n" using x(2) by simp
  next
    fix j assume j: "j < slot" "sizes ! j \<noteq> 0"
    with x(3) show "data (x\<lparr>data := (data x)[slot := NULL]\<rparr>) ! j \<noteq> NULL" by simp
    from j x(3) b2 show "bufs st2 (data (x\<lparr>data := (data x)[slot := NULL]\<rparr>) ! j) \<noteq> None"
      by simp
  next
    fix i j assume "i < slot" "j < slot" "i \<noteq> j" "sizes ! i \<noteq> 0" "sizes ! j \<noteq> 0"
    with x(4) show "data (x\<lparr>data := (data x)[slot := NULL]\<rparr>) ! i
        \<noteq> data (x\<lparr>data := (data x)[slot := NULL]\<rparr>) ! j" by simp
  qed
qed

lemma clone_ok_step:
  assumes ok: "clone_ok n sizes c slot st" and lt: "slot < n"
    and m: "malloc sz st = (p, st1)" and p: "p \<noteq> NULL"
    and s: "set_data c slot p st1 = Some st2"
  shows "clone_ok n sizes c (Suc slot) st2"
proof -
  from ok obtain x where
    x: "ctxs st c = Some x" "length (data x) = n"
      "\<forall>j < slot. sizes ! j \<noteq> 0 \<longrightarrow> data x ! j \<noteq> NULL \<and> bufs st (data x ! j) \<noteq> None"
      "\<forall>i < slot. \<forall>j < slot. i \<noteq> j \<longrightarrow> sizes ! i \<noteq> 0 \<longrightarrow> sizes ! j \<noteq> 0 \<longrightarrow>
           data x ! i \<noteq> data x ! j"
    by (auto simp: clone_ok_def)
  let ?x = "x\<lparr>data := (data x)[slot := p]\<rparr>"
  from set_data_ctxs [OF s] malloc_frame [OF m] x(1) have c2: "ctxs st2 c = Some ?x" by auto
  have b2: "bufs st2 = (bufs st)(p \<mapsto> replicate sz None)" and fresh: "bufs st p = None"
    using malloc_bufs [OF m] p set_data_frame [OF s] by simp_all
  have at: "data ?x ! slot = p" using lt x(2) by simp
  have below: "data ?x ! j = data x ! j" if "j < slot" for j using that by simp
  have old: "data x ! j \<noteq> p" if "j < slot" "sizes ! j \<noteq> 0" for j
    using that x(3) fresh by auto
  show ?thesis unfolding clone_ok_def
  proof (intro conjI exI [of _ ?x] allI impI)
    show "Suc slot \<le> n" using lt by simp
    show "ctxs st2 c = Some ?x" by (rule c2)
    show "length (data ?x) = n" using x(2) by simp
  next
    fix j assume j: "j < Suc slot" "sizes ! j \<noteq> 0"
    show "data ?x ! j \<noteq> NULL"
    proof (cases "j = slot")
      case True
      with at p show ?thesis by simp
    next
      case False
      with j have "j < slot" by simp
      with j x(3) below show ?thesis by simp
    qed
    show "bufs st2 (data ?x ! j) \<noteq> None"
    proof (cases "j = slot")
      case True
      with at b2 show ?thesis by simp
    next
      case False
      with j have "j < slot" by simp
      with j x(3) below b2 show ?thesis by simp
    qed
  next
    fix i j assume a: "i < Suc slot" "j < Suc slot" "i \<noteq> j" "sizes ! i \<noteq> 0" "sizes ! j \<noteq> 0"
    consider "i = slot" "j < slot" | "j = slot" "i < slot" | "i < slot" "j < slot"
      using a(1,2,3) by linarith
    then show "data ?x ! i \<noteq> data ?x ! j"
    proof cases
      case 1
      with at below [of j] old [of j] a(5) show ?thesis by simp
    next
      case 2
      with at below [of i] old [of i] a(4) show ?thesis by simp
    next
      case 3
      with below [of i] below [of j] x(4) a show ?thesis by simp
    qed
  qed
qed

lemma clone_slots_total:
  "clone_ok n sizes c slot st \<Longrightarrow> \<exists>ok st'. clone_slots n sizes c slot st = Some (ok, st')"
proof (induction "n - slot" arbitrary: slot st)
  case 0
  then have "\<not> slot < n" by simp
  then have "clone_slots n sizes c slot st = Some (True, st)" by (simp add: clone_slots.simps)
  then show ?case by blast
next
  case (Suc k)
  then have lt: "slot < n" and k: "k = n - Suc slot" by simp_all
  show ?case
  proof (cases "sizes ! slot = 0")
    case True
    from Suc.hyps(1) [OF k clone_ok_skip [OF Suc.prems lt True]] lt True
    show ?thesis by (subst clone_slots.simps) simp
  next
    case False
    obtain p st1 where m: "malloc (sizes ! slot) st = (p, st1)"
      by (cases "malloc (sizes ! slot) st")
    from clone_ok_set [OF Suc.prems lt m] obtain st2 where s: "set_data c slot p st1 = Some st2"
      by blast
    show ?thesis
    proof (cases "p = NULL")
      case True
      from clone_ok_fail [OF Suc.prems lt m [unfolded True] s [unfolded True]]
      have "clone_ok n sizes c slot st2" .
      from clone_unwind_total [OF this] obtain st3 where
        "clone_unwind sizes c slot st2 = Some st3" by blast
      with lt False m s True have "clone_slots n sizes c slot st = Some (False, st3)"
        by (subst clone_slots.simps) simp
      then show ?thesis by blast
    next
      case np: False
      from Suc.hyps(1) [OF k clone_ok_step [OF Suc.prems lt m np s]] lt False m s np
      show ?thesis by (subst clone_slots.simps) simp
    qed
  qed
qed

lemma clone_slots_frame:
  "clone_slots n sizes c slot st = Some (ok, st') \<Longrightarrow>
     shareds st' = shareds st \<and> dicts st' = dicts st \<and> xlats st' = xlats st \<and>
     xlatctxs st' = xlatctxs st \<and> rwlock_inits st' = rwlock_inits st \<and>
     (\<forall>c'. c' \<noteq> c \<longrightarrow> ctxs st' c' = ctxs st c')"
proof (induction "n - slot" arbitrary: slot st)
  case 0
  from 0(2) show ?case
    by (cases rule: clone_slots_cases) (use 0(1) in simp_all)
next
  case (Suc k)
  then have k: "k = n - Suc slot" by simp
  from Suc.prems show ?case
  proof (cases rule: clone_slots_cases)
    case finished
    then show ?thesis by simp
  next
    case skip
    from Suc.hyps(1) [OF k skip(3)] show ?thesis .
  next
    case (fail st1 st2)
    from malloc_frame [OF fail(3)] set_data_frame [OF fail(4)] set_data_ctxs [OF fail(4)]
      clone_unwind_frame [OF fail(5)]
    show ?thesis by auto
  next
    case (step p st1 st2)
    from Suc.hyps(1) [OF k step(6)] malloc_frame [OF step(3)] set_data_frame [OF step(5)]
      set_data_ctxs [OF step(5)]
    show ?thesis by auto
  qed
qed

lemma clone_slots_ctx:
  "clone_slots n sizes c slot st = Some (ok, st') \<Longrightarrow> ctxs st c = Some x \<Longrightarrow>
     \<exists>d. ctxs st' c = Some (x\<lparr>data := d\<rparr>) \<and> length d = length (data x) \<and>
         (\<forall>j. j < slot \<or> sizes ! j = 0 \<longrightarrow> d ! j = data x ! j)"
proof (induction "n - slot" arbitrary: slot st x)
  case 0
  from 0(2) have "st' = st" by (cases rule: clone_slots_cases) (use 0(1) in simp_all)
  with 0(3) have "ctxs st' c = Some (x\<lparr>data := data x\<rparr>)" by simp
  then show ?case by blast
next
  case (Suc k)
  then have k: "k = n - Suc slot" by simp
  from Suc.prems(1) show ?case
  proof (cases rule: clone_slots_cases)
    case finished
    with Suc.prems(2) have "ctxs st' c = Some (x\<lparr>data := data x\<rparr>)" by simp
    then show ?thesis by blast
  next
    case skip
    from Suc.hyps(1) [OF k skip(3) Suc.prems(2)] obtain d where
      d: "ctxs st' c = Some (x\<lparr>data := d\<rparr>)" "length d = length (data x)"
        "\<forall>j. j < Suc slot \<or> sizes ! j = 0 \<longrightarrow> d ! j = data x ! j" by blast
    then have "\<forall>j. j < slot \<or> sizes ! j = 0 \<longrightarrow> d ! j = data x ! j" by simp
    with d(1,2) show ?thesis by blast
  next
    case (fail st1 st2)
    from set_data_ctxs [OF fail(4)] malloc_frame [OF fail(3)] Suc.prems(2)
      clone_unwind_frame [OF fail(5)]
    have "ctxs st' c = Some (x\<lparr>data := (data x)[slot := NULL]\<rparr>)" by auto
    moreover have "\<forall>j. j < slot \<or> sizes ! j = 0 \<longrightarrow> (data x)[slot := NULL] ! j = data x ! j"
    proof (intro allI impI)
      fix j assume "j < slot \<or> sizes ! j = 0"
      with fail(2) have "j \<noteq> slot" by auto
      then show "(data x)[slot := NULL] ! j = data x ! j" by simp
    qed
    ultimately show ?thesis by (intro exI [of _ "(data x)[slot := NULL]"]) simp
  next
    case (step p st1 st2)
    let ?x = "x\<lparr>data := (data x)[slot := p]\<rparr>"
    from set_data_ctxs [OF step(5)] malloc_frame [OF step(3)] Suc.prems(2)
    have c2: "ctxs st2 c = Some ?x" by auto
    from Suc.hyps(1) [OF k step(6) c2] obtain d where
      d: "ctxs st' c = Some (?x\<lparr>data := d\<rparr>)" "length d = length (data ?x)"
        "\<forall>j. j < Suc slot \<or> sizes ! j = 0 \<longrightarrow> d ! j = data ?x ! j" by blast
    have "\<forall>j. j < slot \<or> sizes ! j = 0 \<longrightarrow> d ! j = data x ! j"
    proof (intro allI impI)
      fix j assume j: "j < slot \<or> sizes ! j = 0"
      then have "j \<noteq> slot" using step(2) by auto
      moreover from j d(3) have "d ! j = data ?x ! j" by auto
      ultimately show "d ! j = data x ! j" by simp
    qed
    with d(1,2) show ?thesis by (intro exI [of _ d]) simp
  qed
qed

lemma clone_ptrs_set_data:
  "set_data c slot p st1 = Some st2 \<Longrightarrow> clone_ptrs sizes c slot st2 = clone_ptrs sizes c slot st1"
proof -
  assume s: "set_data c slot p st1 = Some st2"
  have "get_data c j st2 = get_data c j st1" if "j < slot" for j
    using that get_data_set_data [OF s, of c j] by simp
  then show ?thesis by (auto simp: clone_ptrs_def)
qed

lemma clone_slots_fail_bufs:
  "clone_slots n sizes c slot st = Some (False, st') \<Longrightarrow>
     bufs st' a = (if a \<in> clone_ptrs sizes c slot st then None else bufs st a)"
proof (induction "n - slot" arbitrary: slot st)
  case 0
  from 0(2) show ?case by (cases rule: clone_slots_cases) (use 0(1) in simp_all)
next
  case (Suc k)
  then have k: "k = n - Suc slot" by simp
  from Suc.prems show ?case
  proof (cases rule: clone_slots_cases)
    case finished
    then show ?thesis by simp
  next
    case skip
    from Suc.hyps(1) [OF k skip(3)] skip(2) show ?thesis by (simp add: clone_ptrs_Suc)
  next
    case (fail st1 st2)
    have 1: "bufs st' a = (if a \<in> clone_ptrs sizes c slot st2 then None else bufs st2 a)"
      by (rule clone_unwind_bufs [OF fail(5)])
    have 2: "clone_ptrs sizes c slot st2 = clone_ptrs sizes c slot st1"
      by (rule clone_ptrs_set_data [OF fail(4)])
    have 3: "clone_ptrs sizes c slot st1 = clone_ptrs sizes c slot st"
      using malloc_frame [OF fail(3)] by (intro clone_ptrs_ctxs) simp
    have 4: "bufs st2 a = bufs st a"
      using malloc_bufs [OF fail(3)] set_data_frame [OF fail(4)] by simp
    show ?thesis unfolding 1 2 3 4 ..
  next
    case (step p st1 st2)
    have 1: "bufs st' a = (if a \<in> clone_ptrs sizes c (Suc slot) st2 then None else bufs st2 a)"
      by (rule Suc.hyps(1) [OF k step(6)])
    have g: "get_data c slot st2 = Some p"
      using get_data_set_data [OF step(5), of c slot] by simp
    have 2: "clone_ptrs sizes c slot st2 = clone_ptrs sizes c slot st1"
      by (rule clone_ptrs_set_data [OF step(5)])
    have 3: "clone_ptrs sizes c slot st1 = clone_ptrs sizes c slot st"
      using malloc_frame [OF step(3)] by (intro clone_ptrs_ctxs) simp
    have 5: "clone_ptrs sizes c (Suc slot) st2 = {p} \<union> clone_ptrs sizes c slot st"
      using g step(2,4) by (simp add: clone_ptrs_Suc 2 3)
    have 6: "bufs st2 a = (if a = p then Some (replicate (sizes ! slot) None) else bufs st a)"
      using malloc_bufs [OF step(3)] step(4) set_data_frame [OF step(5)] by simp
    have 7: "bufs st p = None" using malloc_bufs [OF step(3)] step(4) by simp
    show ?thesis unfolding 1 5 6 using 7 by auto
  qed
qed

lemma clone_slots_ok_old:
  "clone_slots n sizes c slot st = Some (True, st') \<Longrightarrow> bufs st a \<noteq> None \<Longrightarrow>
     bufs st' a = bufs st a"
proof (induction "n - slot" arbitrary: slot st)
  case 0
  from 0(2) show ?case by (cases rule: clone_slots_cases) (use 0(1) in simp_all)
next
  case (Suc k)
  then have k: "k = n - Suc slot" by simp
  from Suc.prems(1) show ?case
  proof (cases rule: clone_slots_cases)
    case finished
    then show ?thesis by simp
  next
    case skip
    from Suc.hyps(1) [OF k skip(3) Suc.prems(2)] show ?thesis .
  next
    case (fail st1 st2)
    then show ?thesis by simp
  next
    case (step p st1 st2)
    have "bufs st2 = (bufs st)(p \<mapsto> replicate (sizes ! slot) None)" "bufs st p = None"
      using malloc_bufs [OF step(3)] step(4) set_data_frame [OF step(5)] by simp_all
    with Suc.prems(2) have e: "bufs st2 a = bufs st a" by auto
    with Suc.hyps(1) [OF k step(6)] Suc.prems(2) show ?thesis by simp
  qed
qed

lemma clone_slots_ok_new:
  "clone_slots n sizes c slot st = Some (True, st') \<Longrightarrow> slot \<le> j \<Longrightarrow> j < n \<Longrightarrow>
     sizes ! j \<noteq> 0 \<Longrightarrow>
     \<exists>q. get_data c j st' = Some q \<and> q \<noteq> NULL \<and> bufs st q = None \<and>
         bufs st' q = Some (replicate (sizes ! j) None)"
proof (induction "n - slot" arbitrary: slot st)
  case 0
  then show ?case by simp
next
  case (Suc k)
  then have k: "k = n - Suc slot" by simp
  from Suc.prems(1) show ?case
  proof (cases rule: clone_slots_cases)
    case finished
    with Suc.prems show ?thesis by simp
  next
    case skip
    with Suc.prems have "Suc slot \<le> j" by (cases "j = slot") auto
    from Suc.hyps(1) [OF k skip(3) this Suc.prems(3,4)] show ?thesis .
  next
    case (fail st1 st2)
    then show ?thesis by simp
  next
    case (step p st1 st2)
    have b2: "bufs st2 = (bufs st)(p \<mapsto> replicate (sizes ! slot) None)"
      and fresh: "bufs st p = None"
      using malloc_bufs [OF step(3)] step(4) set_data_frame [OF step(5)] by simp_all
    show ?thesis
    proof (cases "j = slot")
      case True
      from set_data_ctxs [OF step(5)] obtain x where
        x: "slot < length (data x)" "ctxs st2 c = Some (x\<lparr>data := (data x)[slot := p]\<rparr>)"
        by auto
      from clone_slots_ctx [OF step(6) x(2)] obtain d where
        d: "ctxs st' c = Some (x\<lparr>data := (data x)[slot := p]\<rparr>\<lparr>data := d\<rparr>)"
          "length d = length (data (x\<lparr>data := (data x)[slot := p]\<rparr>))"
          "\<forall>j. j < Suc slot \<or> sizes ! j = 0 \<longrightarrow> d ! j = data (x\<lparr>data := (data x)[slot := p]\<rparr>) ! j"
        by blast
      from d(3) x(1) have "d ! slot = p" by simp
      with d(1,2) x(1) have g: "get_data c slot st' = Some p" by (simp add: get_data_def)
      from b2 have "bufs st2 p \<noteq> None" by simp
      from clone_slots_ok_old [OF step(6) this] b2
      have "bufs st' p = Some (replicate (sizes ! slot) None)" by simp
      with g step(4) fresh True show ?thesis by simp
    next
      case False
      with Suc.prems(2) have "Suc slot \<le> j" by simp
      from Suc.hyps(1) [OF k step(6) this Suc.prems(3,4)] obtain q where
        q: "get_data c j st' = Some q" "q \<noteq> NULL" "bufs st2 q = None"
          "bufs st' q = Some (replicate (sizes ! j) None)" by blast
      from q(3) b2 have "bufs st q = None" by (cases "q = p") simp_all
      with q show ?thesis by simp
    qed
  qed
qed

lemma clone_slots_ctxs_eq:
  assumes "clone_slots n sizes c slot st = Some (ok, st')" and "ctxs st c = Some x"
  shows "\<exists>d. ctxs st' = (ctxs st)(c \<mapsto> x\<lparr>data := d\<rparr>) \<and> length d = length (data x) \<and>
         (\<forall>j. j < slot \<or> sizes ! j = 0 \<longrightarrow> d ! j = data x ! j)"
proof -
  from clone_slots_ctx [OF assms] obtain d where
    d: "ctxs st' c = Some (x\<lparr>data := d\<rparr>)" "length d = length (data x)"
      "\<forall>j. j < slot \<or> sizes ! j = 0 \<longrightarrow> d ! j = data x ! j" by blast
  from clone_slots_frame [OF assms(1)] have "\<forall>c'. c' \<noteq> c \<longrightarrow> ctxs st' c' = ctxs st c'" by simp
  with d(1) have "ctxs st' = (ctxs st)(c \<mapsto> x\<lparr>data := d\<rparr>)" by (auto simp: fun_eq_iff)
  with d(2,3) show ?thesis by blast
qed

lemma clone_slots_ok_final:
  "clone_slots n sizes c slot st = Some (True, st') \<Longrightarrow> clone_ok n sizes c slot st \<Longrightarrow>
     clone_ok n sizes c n st'"
proof (induction "n - slot" arbitrary: slot st)
  case 0
  from 0(2) have "st' = st" by (cases rule: clone_slots_cases) (use 0(1) in simp_all)
  moreover from 0(1,3) have "slot = n" by (simp add: clone_ok_def)
  ultimately show ?case using 0(3) by simp
next
  case (Suc k)
  then have k: "k = n - Suc slot" by simp
  from Suc.prems(1) show ?case
  proof (cases rule: clone_slots_cases)
    case finished
    with Suc.hyps(2) show ?thesis by simp
  next
    case skip
    from Suc.hyps(1) [OF k skip(3) clone_ok_skip [OF Suc.prems(2) skip(1,2)]] show ?thesis .
  next
    case (fail st1 st2)
    then show ?thesis by simp
  next
    case (step p st1 st2)
    from Suc.hyps(1) [OF k step(6) clone_ok_step [OF Suc.prems(2) step(1,3,4,5)]]
    show ?thesis .
  qed
qed

lemma clone_slots_ok_only:
  "clone_slots n sizes c slot st = Some (True, st') \<Longrightarrow> bufs st' a \<noteq> None \<Longrightarrow>
     bufs st a \<noteq> None \<or> (\<exists>j. slot \<le> j \<and> j < n \<and> sizes ! j \<noteq> 0 \<and> get_data c j st' = Some a)"
proof (induction "n - slot" arbitrary: slot st)
  case 0
  from 0(2) have "st' = st" by (cases rule: clone_slots_cases) (use 0(1) in simp_all)
  with 0(3) show ?case by simp
next
  case (Suc k)
  then have k: "k = n - Suc slot" by simp
  from Suc.prems(1) show ?case
  proof (cases rule: clone_slots_cases)
    case finished
    with Suc.prems(2) show ?thesis by simp
  next
    case skip
    from Suc.hyps(1) [OF k skip(3) Suc.prems(2)] show ?thesis
      by (auto intro: Suc_leD)
  next
    case (fail st1 st2)
    then show ?thesis by simp
  next
    case (step p st1 st2)
    have b2: "bufs st2 = (bufs st)(p \<mapsto> replicate (sizes ! slot) None)"
      using malloc_bufs [OF step(3)] step(4) set_data_frame [OF step(5)] by simp
    from Suc.hyps(1) [OF k step(6) Suc.prems(2)]
    have "bufs st2 a \<noteq> None \<or>
      (\<exists>j. Suc slot \<le> j \<and> j < n \<and> sizes ! j \<noteq> 0 \<and> get_data c j st' = Some a)" .
    then show ?thesis
    proof
      assume "bufs st2 a \<noteq> None"
      with b2 have "a = p \<or> bufs st a \<noteq> None" by (cases "a = p") simp_all
      then show ?thesis
      proof
        assume "a = p"
        from clone_slots_ok_new [OF Suc.prems(1) le_refl step(1,2)] obtain q where
          q: "get_data c slot st' = Some q" "bufs st' q = Some (replicate (sizes ! slot) None)"
          by blast
        from set_data_ctxs [OF step(5)] obtain x where
          x: "slot < length (data x)" "ctxs st2 c = Some (x\<lparr>data := (data x)[slot := p]\<rparr>)"
          by auto
        from clone_slots_ctx [OF step(6) x(2)] obtain d where
          d: "ctxs st' c = Some (x\<lparr>data := (data x)[slot := p]\<rparr>\<lparr>data := d\<rparr>)"
            "length d = length (data (x\<lparr>data := (data x)[slot := p]\<rparr>))"
            "\<forall>j. j < Suc slot \<or> sizes ! j = 0 \<longrightarrow>
                d ! j = data (x\<lparr>data := (data x)[slot := p]\<rparr>) ! j"
          by blast
        from d(3) x(1) have "d ! slot = p" by simp
        with d(1,2) x(1) have "get_data c slot st' = Some p" by (simp add: get_data_def)
        with \<open>a = p\<close> step(1,2) show ?thesis by auto
      next
        assume "bufs st a \<noteq> None"
        then show ?thesis by simp
      qed
    next
      assume "\<exists>j. Suc slot \<le> j \<and> j < n \<and> sizes ! j \<noteq> 0 \<and> get_data c j st' = Some a"
      then show ?thesis by (auto intro: Suc_leD)
    qed
  qed
qed

lemma kdump_clone_cases:
  assumes og: "ctxs st orig = Some og" and s: "shareds st (shared og) = Some s"
    and len: "length (per_ctx_size s) = n"
    and dd: "dicts st (dict og) = Some dd" and xl: "xlats st (xlat og) = Some xl"
  obtains (fail) st' where "kdump_clone n orig st = Some (NULL, st')" "same_stores st st'"
    | (ok) c x d st' where "kdump_clone n orig st = Some (c, st')"
      "c \<noteq> NULL" "x \<noteq> NULL" "ctxs st c = None" "xlatctxs st x = None"
      "ctxs st' = (ctxs st)(c \<mapsto> (fresh_ctx n x)\<lparr>data := d, shared := shared og,
          dict := dict og, xlat := xlat og\<rparr>)"
      "length d = n"
      "\<forall>j<n. per_ctx_size s ! j = 0 \<longrightarrow> d ! j = NULL"
      "\<forall>j<n. per_ctx_size s ! j \<noteq> 0 \<longrightarrow> d ! j \<noteq> NULL \<and> bufs st (d ! j) = None \<and>
          bufs st' (d ! j) = Some (replicate (per_ctx_size s ! j) None)"
      "\<forall>i<n. \<forall>j<n. i \<noteq> j \<longrightarrow> per_ctx_size s ! i \<noteq> 0 \<longrightarrow> per_ctx_size s ! j \<noteq> 0 \<longrightarrow>
          d ! i \<noteq> d ! j"
      "\<forall>a. bufs st a \<noteq> None \<longrightarrow> bufs st' a = bufs st a"
      "\<forall>a. bufs st' a \<noteq> None \<longrightarrow> bufs st a \<noteq> None \<or> (\<exists>j<n. per_ctx_size s ! j \<noteq> 0 \<and> d ! j = a)"
      "shareds st' = (shareds st)(shared og \<mapsto> s\<lparr>refcnt := refcnt s + 1, ctx := c # ctx s\<rparr>)"
      "dicts st' = (dicts st)(dict og \<mapsto> dd\<lparr>dict_refcnt := dict_refcnt dd + 1\<rparr>)"
      "xlats st' = (xlats st)(xlat og \<mapsto> xl\<lparr>xlat_refcnt := xlat_refcnt xl + 1,
          xlat_ctx := c # xlat_ctx xl\<rparr>)"
      "xlatctxs st' = (xlatctxs st)(x \<mapsto> 1)"
proof (cases n st rule: alloc_ctx_cases)
  case (fail st1 evs)
  from fail(1) have "kdump_clone n orig st = Some (NULL, st1)" by (simp add: kdump_clone_def)
  then show ?thesis using fail(2) by (rule that(1))
next
  case (ok c x st1)
  note a = ok
  let ?sz = "per_ctx_size s"
  let ?f = "fresh_ctx n x"
  from a(4) og have ne: "orig \<noteq> c" by auto
  with a(6) og have og1: "ctxs st1 orig = Some og" by simp
  from a(8) s have s1: "shareds st1 (shared og) = Some s" by simp
  from a(6) have c1: "ctxs st1 c = Some ?f" by simp
  have fl: "length (data ?f) = n" by (simp add: fresh_ctx_def zero_ctx_def)
  have fz: "\<forall>j<n. data ?f ! j = NULL" by (simp add: fresh_ctx_def zero_ctx_def)
  have fx: "xlatctx ?f = x" by (simp add: fresh_ctx_def)
  from c1 fl have ok0: "clone_ok n ?sz c 0 st1" by (simp add: clone_ok_def)
  from clone_slots_total [OF ok0] obtain b st2 where
    cs: "clone_slots n ?sz c 0 st1 = Some (b, st2)" by blast
  from clone_slots_ctxs_eq [OF cs c1] obtain d where
    d: "ctxs st2 = (ctxs st1)(c \<mapsto> ?f\<lparr>data := d\<rparr>)" "length d = n"
      "\<forall>j. ?sz ! j = 0 \<longrightarrow> d ! j = data ?f ! j"
    using fl by auto
  note fr = clone_slots_frame [OF cs]
  have c2: "ctxs st2 c = Some (?f\<lparr>data := d\<rparr>)" using d(1) by simp
  show ?thesis
  proof (cases b)
    case False
    let ?st3 = "st2\<lparr>xlatctxs := (xlatctxs st2)(x := None), trace := trace st2 @ [Free K_xlatctx x]\<rparr>"
    let ?st4 = "?st3\<lparr>ctxs := (ctxs ?st3)(c := None), trace := trace ?st3 @ [Free K_ctx c]\<rparr>"
    from fr a(7) have x2: "xlatctxs st2 x = Some 1" by simp
    then have dr: "addrxlat_ctx_decref x st2 = Some ?st3" by (simp add: addrxlat_ctx_decref_def)
    have fc: "free_ctx c ?st3 = Some ?st4" using c2 by (simp add: free_ctx_def)
    from a(1,2) og1 s1 cs False c2 dr fc have r: "kdump_clone n orig st = Some (NULL, ?st4)"
      by (simp add: kdump_clone_def fx)
    from cs False have csF: "clone_slots n ?sz c 0 st1 = Some (False, st2)" by simp
    have "bufs st2 a = bufs st1 a" for a
      using clone_slots_fail_bufs [OF csF, of a] by (simp add: clone_ptrs_0)
    then have b2: "bufs st2 = bufs st" using a(11) by (simp add: fun_eq_iff)
    have ss: "same_stores st ?st4"
      using fr a(4-11) b2 d(1) by (simp add: same_stores_def map_del_fresh)
    from r ss show ?thesis by (rule that(1))
  next
    case True
    from cs True have cs: "clone_slots n ?sz c 0 st1 = Some (True, st2)" by simp
    let ?y = "?f\<lparr>data := d, shared := shared og, dict := dict og, xlat := xlat og\<rparr>"
    let ?st3 = "st2\<lparr>ctxs := (ctxs st2)(c \<mapsto> ?f\<lparr>data := d, shared := shared og\<rparr>)\<rparr>"
    let ?st4 = "?st3\<lparr>shareds := (shareds ?st3)(shared og \<mapsto> s\<lparr>refcnt := refcnt s + 1\<rparr>)\<rparr>"
    let ?st5 = "?st4\<lparr>shareds := (shareds ?st4)
        (shared og \<mapsto> s\<lparr>refcnt := refcnt s + 1, ctx := c # ctx s\<rparr>)\<rparr>"
    let ?st6 = "?st5\<lparr>ctxs := (ctxs ?st5)
        (c \<mapsto> ?f\<lparr>data := d, shared := shared og, dict := dict og\<rparr>)\<rparr>"
    let ?st7 = "?st6\<lparr>dicts := (dicts ?st6)(dict og \<mapsto> dd\<lparr>dict_refcnt := dict_refcnt dd + 1\<rparr>)\<rparr>"
    let ?st8 = "?st7\<lparr>ctxs := (ctxs ?st7)(c \<mapsto> ?y)\<rparr>"
    let ?st9 = "?st8\<lparr>xlats := (xlats ?st8)(xlat og \<mapsto> xl\<lparr>xlat_refcnt := xlat_refcnt xl + 1\<rparr>)\<rparr>"
    let ?st10 = "?st9\<lparr>xlats := (xlats ?st9)
        (xlat og \<mapsto> xl\<lparr>xlat_refcnt := xlat_refcnt xl + 1, xlat_ctx := c # xlat_ctx xl\<rparr>)\<rparr>"
    from fr s1 have s2: "shareds st2 (shared og) = Some s" by simp
    from fr a(9) dd have d2: "dicts st2 (dict og) = Some dd" by simp
    from fr a(10) xl have x2: "xlats st2 (xlat og) = Some xl" by simp
    have u3: "upd_ctx c (\<lambda>y. y\<lparr>shared := shared og\<rparr>) st2 = Some ?st3"
      using c2 by (simp add: upd_ctx_def)
    have u4: "shared_incref_locked (shared og) ?st3 = Some (refcnt s + 1, ?st4)"
      using s2 by (simp add: shared_incref_locked_def upd_shared_def)
    have u5: "list_add_shared c (shared og) ?st4 = Some ?st5"
      by (simp add: list_add_shared_def upd_shared_def)
    have u6: "upd_ctx c (\<lambda>y. y\<lparr>dict := dict og\<rparr>) ?st5 = Some ?st6"
      by (simp add: upd_ctx_def)
    have u7: "attr_dict_incref (dict og) ?st6 = Some ?st7"
      using d2 by (simp add: attr_dict_incref_def)
    have u8: "upd_ctx c (\<lambda>y. y\<lparr>xlat := xlat og\<rparr>) ?st7 = Some ?st8"
      by (simp add: upd_ctx_def)
    have u9: "xlat_incref (xlat og) ?st8 = Some ?st9"
      using x2 by (simp add: xlat_incref_def)
    have u10: "list_add_xlat c (xlat og) ?st9 = Some ?st10"
      by (simp add: list_add_xlat_def)
    from a(1,2) og1 s1 cs u3 u4 u5 u6 u7 u8 u9 u10
    have r: "kdump_clone n orig st = Some (c, ?st10)"
      by (simp add: kdump_clone_def)
    have gd: "get_data c j st2 = Some (d ! j)" if "j < n" for j
      using c2 d(2) that by (simp add: get_data_def)
    have b10: "bufs ?st10 = bufs st2" by simp
    show ?thesis using r \<open>c \<noteq> NULL\<close> \<open>x \<noteq> NULL\<close> \<open>ctxs st c = None\<close> \<open>xlatctxs st x = None\<close>
    proof (rule that(2))
      show "ctxs ?st10 = (ctxs st)(c \<mapsto> ?y)" using d(1) a(6) by simp
      show "length d = n" using d(2) by simp
      show "\<forall>j<n. ?sz ! j = 0 \<longrightarrow> d ! j = NULL" using d(3) fz by simp
      show "\<forall>j<n. ?sz ! j \<noteq> 0 \<longrightarrow> d ! j \<noteq> NULL \<and> bufs st (d ! j) = None \<and>
          bufs ?st10 (d ! j) = Some (replicate (?sz ! j) None)"
      proof (intro allI impI)
        fix j assume j: "j < n" "?sz ! j \<noteq> 0"
        from clone_slots_ok_new [OF cs _ j] gd [OF j(1)] a(11)
        show "d ! j \<noteq> NULL \<and> bufs st (d ! j) = None \<and>
          bufs ?st10 (d ! j) = Some (replicate (?sz ! j) None)" by auto
      qed
      show "\<forall>i<n. \<forall>j<n. i \<noteq> j \<longrightarrow> ?sz ! i \<noteq> 0 \<longrightarrow> ?sz ! j \<noteq> 0 \<longrightarrow> d ! i \<noteq> d ! j"
        using clone_slots_ok_final [OF cs ok0] c2 by (auto simp: clone_ok_def)
      show "\<forall>a. bufs st a \<noteq> None \<longrightarrow> bufs ?st10 a = bufs st a"
        using clone_slots_ok_old [OF cs] a(11) by simp
      show "\<forall>a. bufs ?st10 a \<noteq> None \<longrightarrow> bufs st a \<noteq> None \<or> (\<exists>j<n. ?sz ! j \<noteq> 0 \<and> d ! j = a)"
      proof (intro allI impI)
        fix a assume "bufs ?st10 a \<noteq> None"
        then have "bufs st2 a \<noteq> None" by simp
        from clone_slots_ok_only [OF cs this] a(11) gd
        show "bufs st a \<noteq> None \<or> (\<exists>j<n. ?sz ! j \<noteq> 0 \<and> d ! j = a)" by auto
      qed
      show "shareds ?st10 = (shareds st)(shared og \<mapsto> s\<lparr>refcnt := refcnt s + 1, ctx := c # ctx s\<rparr>)"
        using fr a(8) by simp
      show "dicts ?st10 = (dicts st)(dict og \<mapsto> dd\<lparr>dict_refcnt := dict_refcnt dd + 1\<rparr>)"
        using fr a(9) by simp
      show "xlats ?st10 = (xlats st)(xlat og \<mapsto> xl\<lparr>xlat_refcnt := xlat_refcnt xl + 1,
          xlat_ctx := c # xlat_ctx xl\<rparr>)"
        using fr a(10) by simp
      show "xlatctxs ?st10 = (xlatctxs st)(x \<mapsto> 1)" using fr a(7) by simp
    qed
  qed
qed

lemmas clone_defs =
  kdump_clone_def alloc_ctx_def calloc_ctx_def pick_def err_init_def err_cleanup_def
  init_addrxlat_def upd_ctx_def upd_shared_def clone_slots.simps malloc_def set_data_def
  get_data_def free_def free_ctx_def addrxlat_ctx_decref_def shared_incref_locked_def
  list_add_shared_def list_add_xlat_def attr_dict_incref_def xlat_incref_def zero_ctx_def
  ex_state_def ex_ctx_def

lemma slot_size_attached:
  assumes "wf_lists n st" "shareds st sh = Some s" "c \<in> set (ctx s)"
  shows "slot_size st c i = per_ctx_size s ! i"
proof -
  from assms obtain x where "ctxs st c = Some x" "shared x = sh"
    unfolding wf_lists_def by blast
  with assms(2,3) show ?thesis by (simp add: slot_size_def)
qed

lemma slot_size_nonzero:
  assumes "slot_size st c i \<noteq> 0"
  obtains x s where "ctxs st c = Some x" "shareds st (shared x) = Some s" "c \<in> set (ctx s)"
    "slot_size st c i = per_ctx_size s ! i"
  using assms by (auto simp: slot_size_def split: option.splits if_splits)

lemma slots_inv_holds: "slots_inv n st \<Longrightarrow> holds_buffers n st"
  unfolding holds_buffers_def
proof (intro allI impI)
  fix sh s c i
  assume inv: "slots_inv n st" and a: "shareds st sh = Some s" "c \<in> set (ctx s)" "i < n"
    "per_ctx_size s ! i \<noteq> 0"
  from inv have wf: "wf_lists n st" by (simp add: slots_inv_def)
  from slot_size_attached [OF wf a(1,2)] have e: "slot_size st c i = per_ctx_size s ! i" .
  with inv a(3,4) show "\<exists>q b. get_data c i st = Some q \<and> q \<noteq> NULL \<and> bufs st q = Some b \<and>
               length b = per_ctx_size s ! i"
    unfolding slots_inv_def by metis
qed

text \<open>
  The invariant is kept by a step that leaves every slot in use as it is (size, pointer
  and buffer) or makes it a new one: a pointer to a buffer that was not live before,
  no two new slots the same buffer.
\<close>

lemma slots_inv_step:
  assumes inv: "slots_inv n st" and wf: "wf_lists n st'"
    and cases: "\<And>c i. i < n \<Longrightarrow> slot_size st' c i \<noteq> 0 \<Longrightarrow>
        (slot_size st c i = slot_size st' c i \<and> get_data c i st' = get_data c i st \<and>
         (\<forall>q. get_data c i st = Some q \<longrightarrow> bufs st' q = bufs st q)) \<or>
        (\<exists>q. get_data c i st' = Some q \<and> q \<noteq> NULL \<and> bufs st q = None \<and>
             bufs st' q = Some (replicate (slot_size st' c i) None))"
    and new: "\<And>c i c' i'. i < n \<Longrightarrow> i' < n \<Longrightarrow> slot_size st' c i \<noteq> 0 \<Longrightarrow>
        slot_size st' c' i' \<noteq> 0 \<Longrightarrow> get_data c i st' = get_data c' i' st' \<Longrightarrow>
        (\<exists>q. get_data c i st' = Some q \<and> bufs st q = None) \<Longrightarrow> c = c' \<and> i = i'"
  shows "slots_inv n st'"
proof -
  have 1: "\<exists>q b. get_data c i st' = Some q \<and> q \<noteq> NULL \<and> bufs st' q = Some b \<and>
               length b = slot_size st' c i" if a: "i < n" "slot_size st' c i \<noteq> 0" for c i
    using cases [OF a]
  proof
    assume o: "slot_size st c i = slot_size st' c i \<and> get_data c i st' = get_data c i st \<and>
         (\<forall>q. get_data c i st = Some q \<longrightarrow> bufs st' q = bufs st q)"
    with a have "slot_size st c i \<noteq> 0" by simp
    with inv a(1) obtain q b where "get_data c i st = Some q" "q \<noteq> NULL" "bufs st q = Some b"
      "length b = slot_size st c i" unfolding slots_inv_def by blast
    with o show ?thesis by auto
  next
    assume "\<exists>q. get_data c i st' = Some q \<and> q \<noteq> NULL \<and> bufs st q = None \<and>
             bufs st' q = Some (replicate (slot_size st' c i) None)"
    then show ?thesis by auto
  qed
  have 2: "c = c' \<and> i = i'"
    if a: "i < n" "slot_size st' c i \<noteq> 0" and a': "i' < n" "slot_size st' c' i' \<noteq> 0"
      and e: "get_data c i st' = get_data c' i' st'" for c i c' i'
  proof -
    from cases [OF a] show ?thesis
    proof
      assume o: "slot_size st c i = slot_size st' c i \<and> get_data c i st' = get_data c i st \<and>
           (\<forall>q. get_data c i st = Some q \<longrightarrow> bufs st' q = bufs st q)"
      from cases [OF a'] show ?thesis
      proof
        assume o': "slot_size st c' i' = slot_size st' c' i' \<and>
           get_data c' i' st' = get_data c' i' st \<and>
           (\<forall>q. get_data c' i' st = Some q \<longrightarrow> bufs st' q = bufs st q)"
        from o o' a a' e have "slot_size st c i \<noteq> 0" "slot_size st c' i' \<noteq> 0"
          "get_data c i st = get_data c' i' st" by simp_all
        with inv a(1) a'(1) show ?thesis unfolding slots_inv_def by blast
      next
        assume "\<exists>q. get_data c' i' st' = Some q \<and> q \<noteq> NULL \<and> bufs st q = None \<and>
               bufs st' q = Some (replicate (slot_size st' c' i') None)"
        with e have "\<exists>q. get_data c' i' st' = Some q \<and> bufs st q = None" by auto
        from new [OF a'(1) a(1) a'(2) a(2) e [symmetric] this] show ?thesis by simp
      qed
    next
      assume "\<exists>q. get_data c i st' = Some q \<and> q \<noteq> NULL \<and> bufs st q = None \<and>
               bufs st' q = Some (replicate (slot_size st' c i) None)"
      then have "\<exists>q. get_data c i st' = Some q \<and> bufs st q = None" by auto
      from new [OF a(1) a'(1) a(2) a'(2) e this] show ?thesis .
    qed
  qed
  from wf 1 2 show ?thesis unfolding slots_inv_def by blast
qed

lemma slots_inv_same:
  assumes "same_stores st st'" and "slots_inv n st"
  shows "slots_inv n st'"
proof -
  from assms(1) have e: "ctxs st' = ctxs st" "shareds st' = shareds st" "dicts st' = dicts st"
    "xlats st' = xlats st" "bufs st' = bufs st" by (simp_all add: same_stores_def)
  from assms(2) show ?thesis
    unfolding slots_inv_def wf_lists_def slot_size_def get_data_def e .
qed

lemma wf_lists_registry:
  assumes "wf_lists n st" "shareds st sh = Some s"
  shows "length (per_ctx_size s) = n" "distinct (ctx s)" "sh \<noteq> NULL"
    "\<And>c. c \<in> set (ctx s) \<Longrightarrow> \<exists>x. ctxs st c = Some x \<and> shared x = sh \<and> length (data x) = n"
proof -
  from assms show "length (per_ctx_size s) = n" "distinct (ctx s)"
    unfolding wf_lists_def by blast+
  show "sh \<noteq> NULL"
  proof
    assume "sh = NULL"
    with assms show False unfolding wf_lists_def by simp
  qed
  fix c assume "c \<in> set (ctx s)"
  with assms obtain x where x: "ctxs st c = Some x" "shared x = sh"
    unfolding wf_lists_def by blast
  with assms(1) have "length (data x) = n" unfolding wf_lists_def by blast
  with x show "\<exists>x. ctxs st c = Some x \<and> shared x = sh \<and> length (data x) = n" by blast
qed

lemma wf_lists_registry_ok:
  assumes "wf_lists n st" "shareds st sh = Some s"
  shows "registry_ok n sh st"
  unfolding registry_ok_def
  using assms(2) wf_lists_registry [OF assms] by blast

lemma slots_inv_freeable:
  assumes inv: "slots_inv n st" and s: "shareds st sh = Some s" and k: "k < n"
    and nz: "per_ctx_size s ! k \<noteq> 0"
  shows "freeable k (ctx s) st"
proof -
  from inv have wf: "wf_lists n st" by (simp add: slots_inv_def)
  have sz: "slot_size st c k \<noteq> 0" if "c \<in> set (ctx s)" for c
    using slot_size_attached [OF wf s that, of k] nz by simp
  have 1: "\<exists>q. get_data c k st = Some q \<and> (q = NULL \<or> bufs st q \<noteq> None)"
    if "c \<in> set (ctx s)" for c
  proof -
    from inv k sz [OF that] obtain q b where "get_data c k st = Some q" "bufs st q = Some b"
      unfolding slots_inv_def by blast
    then show ?thesis by auto
  qed
  have 2: "get_data c k st = Some NULL"
    if "c \<in> set (ctx s)" "c' \<in> set (ctx s)" "c \<noteq> c'" "get_data c k st = get_data c' k st"
    for c c'
  proof -
    from inv k sz [OF that(1)] sz [OF that(2)] that(4) have "c = c'"
      unfolding slots_inv_def by blast
    with that(3) show ?thesis by simp
  qed
  from wf_lists_registry(2) [OF wf s] 1 2 show ?thesis unfolding freeable_def by blast
qed

lemma per_ctx_free_inv:
  assumes inv: "slots_inv n st" and s: "shareds st sh = Some s"
    and lo: "0 \<le> slot" and hi: "slot < int n" and nz: "per_ctx_size s ! nat slot \<noteq> 0"
    and f: "per_ctx_free n sh slot st = Some st'"
  shows "slots_inv n st'"
proof -
  let ?k = "nat slot"
  from lo hi have k: "?k < n" by simp
  from inv have wf: "wf_lists n st" by (simp add: slots_inv_def)
  note reg = wf_lists_registry [OF wf s]
  from per_ctx_free_effect [OF s reg(1) lo hi slots_inv_freeable [OF inv s k nz]] f
  have sh': "shareds st' = (shareds st)(sh \<mapsto> s\<lparr>per_ctx_size := (per_ctx_size s)[?k := 0]\<rparr>)"
    and c': "ctxs st' = ctxs st" and d': "dicts st' = dicts st" and x': "xlats st' = xlats st"
    and b': "\<forall>a. bufs st' a = (if a \<in> slot_ptrs ?k (ctx s) st then None else bufs st a)"
    by auto
  have gd: "get_data c i st' = get_data c i st" for c i using c' by (rule get_data_ctxs)
  have wf': "wf_lists n st'"
    using wf s reg(3) unfolding wf_lists_def sh' c' d' x'
    by (auto split: if_splits)
  have ss: "slot_size st' c i = (if c \<in> set (ctx s) \<and> i = ?k then 0 else slot_size st c i)"
    if "i < n" for c i
  proof (cases "c \<in> set (ctx s)")
    case True
    from slot_size_attached [OF wf s True] have 1: "slot_size st c i = per_ctx_size s ! i" .
    have "shareds st' sh = Some (s\<lparr>per_ctx_size := (per_ctx_size s)[?k := 0]\<rparr>)"
      using sh' by simp
    from slot_size_attached [OF wf' this, of c i] True
    have "slot_size st' c i = (per_ctx_size s)[?k := 0] ! i" by simp
    with 1 True k reg(1) show ?thesis by (simp add: nth_list_update)
  next
    case False
    with s show ?thesis unfolding slot_size_def c' sh'
      by (auto split: option.splits)
  qed
  show ?thesis
  proof (rule slots_inv_step [OF inv wf'])
    fix c i assume a: "i < n" "slot_size st' c i \<noteq> 0"
    with ss [OF a(1), of c] have no: "\<not> (c \<in> set (ctx s) \<and> i = ?k)"
      and same: "slot_size st c i = slot_size st' c i" by (auto split: if_splits)
    have "bufs st' q = bufs st q" if q: "get_data c i st = Some q" for q
    proof -
      have "q \<notin> slot_ptrs ?k (ctx s) st"
      proof
        assume "q \<in> slot_ptrs ?k (ctx s) st"
        then obtain c2 where c2: "c2 \<in> set (ctx s)" "get_data c2 ?k st = Some q"
          by (auto simp: slot_ptrs_def)
        from slot_size_attached [OF wf s c2(1), of ?k] nz have "slot_size st c2 ?k \<noteq> 0" by simp
        with inv a(1) k same a(2) q c2(2) have "c = c2 \<and> i = ?k"
          unfolding slots_inv_def by metis
        with c2(1) no show False by simp
      qed
      with b' show ?thesis by simp
    qed
    with same gd show "(slot_size st c i = slot_size st' c i \<and> get_data c i st' = get_data c i st \<and>
         (\<forall>q. get_data c i st = Some q \<longrightarrow> bufs st' q = bufs st q)) \<or>
        (\<exists>q. get_data c i st' = Some q \<and> q \<noteq> NULL \<and> bufs st q = None \<and>
             bufs st' q = Some (replicate (slot_size st' c i) None))" by simp
  next
    fix c i c1 i1
    assume a: "i < n" "slot_size st' c i \<noteq> 0"
      and n: "\<exists>q. get_data c i st' = Some q \<and> bufs st q = None"
    from ss [OF a(1), of c] a(2) have "slot_size st c i \<noteq> 0" by (auto split: if_splits)
    with inv a(1) obtain q b where "get_data c i st = Some q" "bufs st q = Some b"
      unfolding slots_inv_def by blast
    with n gd show "c = c1 \<and> i = i1" by auto
  qed
qed

lemma per_ctx_alloc_frame:
  assumes a: "per_ctx_alloc n sh sz st = Some (r, st')" and s: "shareds st sh = Some s"
  shows "dicts st' = dicts st" "xlats st' = xlats st" "xlatctxs st' = xlatctxs st"
    "\<And>c. c \<notin> set (ctx s) \<Longrightarrow> ctxs st' c = ctxs st c"
proof -
  have "dicts st' = dicts st \<and> xlats st' = xlats st \<and> xlatctxs st' = xlatctxs st \<and>
    (\<forall>c. c \<notin> set (ctx s) \<longrightarrow> ctxs st' c = ctxs st c)"
    using a s
  proof (cases rule: per_ctx_alloc_cases)
    case full
    then show ?thesis by simp
  next
    case (nomem st1)
    from alloc_loop_frame [OF nomem(3)] alloc_loop_ctxs_other [OF nomem(3)]
      set_size_frame [OF nomem(2)]
    show ?thesis by simp
  next
    case (ok st1)
    from alloc_loop_frame [OF ok(3)] alloc_loop_ctxs_other [OF ok(3)]
      set_size_frame [OF ok(2)]
    show ?thesis by simp
  qed
  then show "dicts st' = dicts st" "xlats st' = xlats st" "xlatctxs st' = xlatctxs st"
    "\<And>c. c \<notin> set (ctx s) \<Longrightarrow> ctxs st' c = ctxs st c" by simp_all
qed

lemma per_ctx_alloc_inv:
  assumes inv: "slots_inv n st" and a: "per_ctx_alloc n sh sz st = Some (r, st')"
  shows "slots_inv n st'"
proof -
  from a obtain s where s: "shareds st sh = Some s"
    by (cases "shareds st sh") (simp_all add: per_ctx_alloc_def)
  let ?k = "slot_scan n (per_ctx_size s) 0"
  let ?ps = "per_ctx_size s"
  from inv have wf: "wf_lists n st" by (simp add: slots_inv_def)
  note reg = wf_lists_registry [OF wf s]
  note fr = per_ctx_alloc_frame [OF a s]
  from per_ctx_alloc_effect [OF wf_lists_registry_ok [OF wf s] s, of sz] a have
    cn: "\<forall>c. ctxs st c = None \<longrightarrow> ctxs st' c = None" and
    cs: "\<forall>c x. ctxs st c = Some x \<longrightarrow>
        (\<exists>q. ctxs st' c = Some (x\<lparr>data := (data x)[?k := q]\<rparr>))" and
    eff: "case r of
        Inr slot \<Rightarrow>
          slot < n \<and> slot = ?k \<and>
          shareds st' = (shareds st)(sh \<mapsto> s\<lparr>per_ctx_size := ?ps[slot := sz]\<rparr>) \<and>
          (\<forall>c\<in>set (ctx s). \<exists>q. get_data c slot st' = Some q \<and> q \<noteq> NULL \<and>
              bufs st q = None \<and> bufs st' q = Some (replicate sz None)) \<and>
          (\<forall>c\<in>set (ctx s). \<forall>c'\<in>set (ctx s). c \<noteq> c' \<longrightarrow>
              get_data c slot st' \<noteq> get_data c' slot st') \<and>
          (\<forall>a. bufs st a \<noteq> None \<longrightarrow> bufs st' a = bufs st a)
      | Inl e \<Rightarrow> shareds st' = shareds st \<and> bufs st' = bufs st \<and>
          (e = EAGAIN \<and> st' = st \<or>
           e = ENOMEM \<and>
           (\<exists>before c rest. ctx s = before @ c # rest \<and>
              get_data c ?k st' = Some NULL \<and>
              (\<forall>c'\<in>set rest. ctxs st' c' = ctxs st c') \<and>
              (\<forall>c'\<in>set before. \<exists>q. get_data c' ?k st' = Some q \<and>
                  q \<noteq> NULL \<and> bufs st' q = None)))"
    by auto
  \<comment> \<open>the table after the call\<close>
  obtain ps' where
    sh': "shareds st' = (shareds st)(sh \<mapsto> s\<lparr>per_ctx_size := ps'\<rparr>)" and
    ps': "ps' = ?ps \<or> (?k < n \<and> ps' = ?ps[?k := sz] \<and> r = Inr ?k)"
  proof (cases r)
    case (Inl e)
    with eff have "shareds st' = (shareds st)(sh \<mapsto> s\<lparr>per_ctx_size := ?ps\<rparr>)"
      using s by (simp add: map_upd_triv)
    then show thesis by (rule that) simp
  next
    case (Inr slot)
    with eff have "shareds st' = (shareds st)(sh \<mapsto> s\<lparr>per_ctx_size := ?ps[?k := sz]\<rparr>)"
      "?k < n" "slot = ?k" by simp_all
    with Inr show thesis by (intro that [of "?ps[?k := sz]"]) simp_all
  qed
  have len': "length ps' = n" using ps' reg(1) by auto
  have old_bufs: "bufs st' q = bufs st q" if "bufs st q \<noteq> None" for q
    using eff that by (cases r) simp_all
  \<comment> \<open>contexts keep everything but the pointer at the slot\<close>
  have ctx': "\<exists>x q. ctxs st c = Some x \<and> x' = x\<lparr>data := (data x)[?k := q]\<rparr>"
    if "ctxs st' c = Some x'" for c x'
  proof (cases "ctxs st c")
    case None
    with cn that show ?thesis by simp
  next
    case (Some x)
    with cs obtain q where "ctxs st' c = Some (x\<lparr>data := (data x)[?k := q]\<rparr>)" by blast
    with that have "x' = x\<lparr>data := (data x)[?k := q]\<rparr>" by simp
    with Some show ?thesis by blast
  qed
  have gd: "get_data c i st' = get_data c i st" if "i \<noteq> ?k \<or> c \<notin> set (ctx s)" for c i
  proof (cases "c \<in> set (ctx s)")
    case False
    from fr(4) [OF this] show ?thesis by (simp add: get_data_def)
  next
    case True
    with that have i: "i \<noteq> ?k" by simp
    show ?thesis
    proof (cases "ctxs st c")
      case None
      with cn show ?thesis by (simp add: get_data_def)
    next
      case (Some x)
      with cs obtain q where "ctxs st' c = Some (x\<lparr>data := (data x)[?k := q]\<rparr>)" by blast
      with Some i show ?thesis by (simp add: get_data_def)
    qed
  qed
  have wf': "wf_lists n st'"
    unfolding wf_lists_def
  proof (intro conjI allI impI ballI)
    show "shareds st' NULL = None" using sh' reg(3) wf by (simp add: wf_lists_def)
  next
    fix sh1 s1 assume s1: "shareds st' sh1 = Some s1"
    show "length (per_ctx_size s1) = n"
      using s1 sh' len' wf by (auto simp: wf_lists_def split: if_splits)
    show "distinct (ctx s1)"
      using s1 sh' reg(2) wf by (auto simp: wf_lists_def split: if_splits)
    fix c assume c: "c \<in> set (ctx s1)"
    have "\<exists>s0. shareds st sh1 = Some s0 \<and> c \<in> set (ctx s0)"
      using s1 sh' s c by (auto split: if_splits)
    then obtain s0 where "shareds st sh1 = Some s0" "c \<in> set (ctx s0)" by blast
    from wf_lists_registry(4) [OF wf this] obtain x where x: "ctxs st c = Some x" "shared x = sh1"
      by blast
    with cs obtain q where "ctxs st' c = Some (x\<lparr>data := (data x)[?k := q]\<rparr>)" by blast
    with x(2) show "\<exists>x. ctxs st' c = Some x \<and> shared x = sh1" by simp
  next
    fix c x' assume "ctxs st' c = Some x'"
    from ctx' [OF this] obtain x q where x: "ctxs st c = Some x" "x' = x\<lparr>data := (data x)[?k := q]\<rparr>"
      by blast
    from wf x(1) have w: "length (data x) = n" "shareds st (shared x) \<noteq> None"
      "dicts st (dict x) \<noteq> None" "xlats st (xlat x) \<noteq> None" unfolding wf_lists_def by blast+
    from w(1) x(2) show "length (data x') = n" by simp
    from w(2) x(2) sh' show "shareds st' (shared x') \<noteq> None" by simp
    from w(3) x(2) fr(1) show "dicts st' (dict x') \<noteq> None" by simp
    from w(4) x(2) fr(2) show "xlats st' (xlat x') \<noteq> None" by simp
  qed
  have ss: "slot_size st' c i = (if c \<in> set (ctx s) then ps' ! i else slot_size st c i)" for c i
  proof (cases "c \<in> set (ctx s)")
    case True
    have "shareds st' sh = Some (s\<lparr>per_ctx_size := ps'\<rparr>)" using sh' by simp
    from slot_size_attached [OF wf' this, of c i] True show ?thesis by simp
  next
    case False
    from fr(4) [OF this] s False show ?thesis unfolding slot_size_def sh'
      by (auto split: option.splits)
  qed
  have ss0: "slot_size st c i = ?ps ! i" if "c \<in> set (ctx s)" for c i
    by (rule slot_size_attached [OF wf s that])
  \<comment> \<open>a slot in use after the call is an old one or a new one\<close>
  have is_new: "ps' = ?ps[?k := sz] \<and> r = Inr ?k \<and> ?k < n \<and> ?ps ! ?k = 0"
    if "c \<in> set (ctx s)" "i = ?k" "slot_size st' c i \<noteq> 0" "i < n" for c i
  proof -
    from that have k: "?k < n" by simp
    from slot_scan_free [OF k] have z: "?ps ! ?k = 0" .
    from that(1,2,3) ss [of c i] have "ps' ! ?k \<noteq> 0" by simp
    with ps' z k show ?thesis by auto
  qed
  have is_old: "slot_size st c i = slot_size st' c i \<and> get_data c i st' = get_data c i st"
    if "\<not> (c \<in> set (ctx s) \<and> i = ?k)" "i < n" for c i
  proof -
    have "slot_size st c i = slot_size st' c i"
    proof (cases "c \<in> set (ctx s)")
      case True
      with that have "i \<noteq> ?k" by simp
      with ps' have "ps' ! i = ?ps ! i" by auto
      with True ss [of c i] ss0 [OF True, of i] show ?thesis by simp
    next
      case False
      with ss [of c i] show ?thesis by simp
    qed
    moreover from that(1) have "get_data c i st' = get_data c i st" by (intro gd) auto
    ultimately show ?thesis by simp
  qed
  have old_live: "\<exists>q b. get_data c i st' = Some q \<and> bufs st q = Some b"
    if "\<not> (c \<in> set (ctx s) \<and> i = ?k)" "i < n" "slot_size st' c i \<noteq> 0" for c i
  proof -
    from is_old [OF that(1,2)] that(3) have "slot_size st c i \<noteq> 0"
      "get_data c i st' = get_data c i st" by simp_all
    with inv that(2) show ?thesis unfolding slots_inv_def by metis
  qed
  show ?thesis
  proof (rule slots_inv_step [OF inv wf'])
    fix c i assume i: "i < n" "slot_size st' c i \<noteq> 0"
    show "(slot_size st c i = slot_size st' c i \<and> get_data c i st' = get_data c i st \<and>
         (\<forall>q. get_data c i st = Some q \<longrightarrow> bufs st' q = bufs st q)) \<or>
        (\<exists>q. get_data c i st' = Some q \<and> q \<noteq> NULL \<and> bufs st q = None \<and>
             bufs st' q = Some (replicate (slot_size st' c i) None))"
    proof (cases "c \<in> set (ctx s) \<and> i = ?k")
      case True
      then have m: "c \<in> set (ctx s)" "i = ?k" by simp_all
      from is_new [OF m i(2,1)] have new: "ps' = ?ps[?k := sz]" "r = Inr ?k" "?k < n" by simp_all
      from eff new(2) m(1) obtain q where
        "get_data c ?k st' = Some q" "q \<noteq> NULL" "bufs st q = None"
        "bufs st' q = Some (replicate sz None)" by auto
      moreover from ss [of c i] m new(1,3) reg(1) have "slot_size st' c i = sz" by simp
      ultimately show ?thesis using m(2) by auto
    next
      case False
      from is_old [OF False i(1)] old_live [OF False i] old_bufs show ?thesis by auto
    qed
  next
    fix c i c1 i1
    assume i: "i < n" "slot_size st' c i \<noteq> 0" and i1: "i1 < n" "slot_size st' c1 i1 \<noteq> 0"
      and e: "get_data c i st' = get_data c1 i1 st'"
      and n: "\<exists>q. get_data c i st' = Some q \<and> bufs st q = None"
    have m: "c \<in> set (ctx s) \<and> i = ?k"
    proof (rule ccontr)
      assume "\<not> ?thesis"
      from old_live [OF this i] n show False by auto
    qed
    have m1: "c1 \<in> set (ctx s) \<and> i1 = ?k"
    proof (rule ccontr)
      assume "\<not> ?thesis"
      from old_live [OF this i1] n e show False by auto
    qed
    from m is_new [of c i] i have "r = Inr ?k" by simp
    with eff have "\<forall>c\<in>set (ctx s). \<forall>c'\<in>set (ctx s). c \<noteq> c' \<longrightarrow>
              get_data c ?k st' \<noteq> get_data c' ?k st'" by simp
    with m m1 e show "c = c1 \<and> i = i1" by auto
  qed
qed

lemma kdump_new_inv:
  assumes inv: "slots_inv n st" and a: "kdump_new n st = Some (c, st')"
  shows "slots_inv n st'"
proof (cases n st rule: kdump_new_cases)
  case (fail st1 evs)
  with a have "same_stores st st'" by simp
  from slots_inv_same [OF this inv] show ?thesis .
next
  case (ok c1 x s d t st1)
  with a have e: "c1 = c" "st1 = st'" by simp_all
  note k = ok(2-) [unfolded e]
  let ?y = "(fresh_ctx n x)\<lparr>shared := s, dict := d, xlat := t\<rparr>"
  let ?s = "\<lparr>refcnt = 1, ctx = [c], per_ctx_size = replicate n 0\<rparr>"
  from inv have wf: "wf_lists n st" by (simp add: slots_inv_def)
  have yl: "length (data ?y) = n" by (simp add: fresh_ctx_def zero_ctx_def)
  have live: "c0 \<noteq> c" if "ctxs st c0 = Some x0" for c0 x0 using that k(6) by auto
  have reg: "shared x0 \<noteq> s" if "ctxs st c0 = Some x0" for c0 x0
  proof -
    from wf that have "shareds st (shared x0) \<noteq> None" unfolding wf_lists_def by blast
    with k(8) show ?thesis by auto
  qed
  have wf': "wf_lists n st'"
    unfolding wf_lists_def
  proof (intro conjI allI impI ballI)
    show "shareds st' NULL = None" using k(13) k(3) wf by (simp add: wf_lists_def)
  next
    fix sh1 s1 assume s1: "shareds st' sh1 = Some s1"
    show "length (per_ctx_size s1) = n"
      using s1 k(13) wf by (auto simp: wf_lists_def split: if_splits)
    show "distinct (ctx s1)"
      using s1 k(13) wf by (auto simp: wf_lists_def split: if_splits)
    fix c0 assume c0: "c0 \<in> set (ctx s1)"
    show "\<exists>x. ctxs st' c0 = Some x \<and> shared x = sh1"
    proof (cases "sh1 = s")
      case True
      with s1 k(13) have "s1 = ?s" by simp
      with c0 have "c0 = c" by simp
      with True k(11) show ?thesis by simp
    next
      case False
      with s1 k(13) have "shareds st sh1 = Some s1" by simp
      from wf_lists_registry(4) [OF wf this c0] obtain x0 where
        x0: "ctxs st c0 = Some x0" "shared x0 = sh1" by blast
      with live [OF x0(1)] k(11) show ?thesis by simp
    qed
  next
    fix c0 x0 assume c0: "ctxs st' c0 = Some x0"
    have "length (data x0) = n \<and> shareds st' (shared x0) \<noteq> None \<and>
        dicts st' (dict x0) \<noteq> None \<and> xlats st' (xlat x0) \<noteq> None"
    proof (cases "c0 = c")
      case True
      with c0 k(11) have "x0 = ?y" by simp
      with yl k(13,14,15) show ?thesis by simp
    next
      case False
      with c0 k(11) have "ctxs st c0 = Some x0" by simp
      with wf have "length (data x0) = n" "shareds st (shared x0) \<noteq> None"
        "dicts st (dict x0) \<noteq> None" "xlats st (xlat x0) \<noteq> None" unfolding wf_lists_def by blast+
      with k(13,14,15) show ?thesis by auto
    qed
    then show "length (data x0) = n" "shareds st' (shared x0) \<noteq> None"
        "dicts st' (dict x0) \<noteq> None" "xlats st' (xlat x0) \<noteq> None" by simp_all
  qed
  have ss: "slot_size st' c0 i = (if c0 = c then 0 else slot_size st c0 i)" if "i < n" for c0 i
  proof (cases "c0 = c")
    case True
    with k(11,13) that show ?thesis by (simp add: slot_size_def)
  next
    case False
    show ?thesis
    proof (cases "ctxs st c0")
      case None
      with False k(11) show ?thesis by (simp add: slot_size_def)
    next
      case (Some x0)
      from reg [OF Some] False Some k(11,13) show ?thesis by (simp add: slot_size_def)
    qed
  qed
  have gd: "get_data c0 i st' = get_data c0 i st" if "c0 \<noteq> c" for c0 i
    using that k(11) by (simp add: get_data_def)
  show ?thesis
  proof (rule slots_inv_step [OF inv wf'])
    fix c0 i assume i: "i < n" "slot_size st' c0 i \<noteq> 0"
    with ss [OF i(1), of c0] have "c0 \<noteq> c" "slot_size st c0 i = slot_size st' c0 i"
      by (auto split: if_splits)
    with gd k(16) show "(slot_size st c0 i = slot_size st' c0 i \<and>
         get_data c0 i st' = get_data c0 i st \<and>
         (\<forall>q. get_data c0 i st = Some q \<longrightarrow> bufs st' q = bufs st q)) \<or>
        (\<exists>q. get_data c0 i st' = Some q \<and> q \<noteq> NULL \<and> bufs st q = None \<and>
             bufs st' q = Some (replicate (slot_size st' c0 i) None))" by simp
  next
    fix c0 i c1 i1
    assume i: "i < n" "slot_size st' c0 i \<noteq> 0"
      and n: "\<exists>q. get_data c0 i st' = Some q \<and> bufs st q = None"
    from ss [OF i(1), of c0] i(2) have o: "c0 \<noteq> c" "slot_size st c0 i \<noteq> 0"
      by (auto split: if_splits)
    with inv i(1) obtain q b where "get_data c0 i st = Some q" "bufs st q = Some b"
      unfolding slots_inv_def by blast
    with n gd [OF o(1)] show "c0 = c1 \<and> i = i1" by auto
  qed
qed

lemma kdump_clone_dead:
  assumes dead: "ctxs st orig = None" and z: "shareds st NULL = None"
    and a: "kdump_clone n orig st = Some (c, st')"
  shows "same_stores st st'"
proof (cases n st rule: alloc_ctx_cases)
  case (fail st1 evs)
  with a show ?thesis by (simp add: kdump_clone_def)
next
  case (ok c1 x st1)
  have f: "shared (fresh_ctx n x) = NULL" by (simp add: fresh_ctx_def zero_ctx_def)
  have "kdump_clone n orig st = None"
  proof (cases "orig = c1")
    case True
    with ok f z show ?thesis by (simp add: kdump_clone_def)
  next
    case False
    with ok dead show ?thesis by (simp add: kdump_clone_def)
  qed
  with a show ?thesis by simp
qed

lemma kdump_clone_inv:
  assumes inv: "slots_inv n st" and a: "kdump_clone n orig st = Some (c, st')"
  shows "slots_inv n st'"
proof (cases "ctxs st orig")
  case None
  from inv have "shareds st NULL = None" by (simp add: slots_inv_def wf_lists_def)
  from slots_inv_same [OF kdump_clone_dead [OF None this a] inv] show ?thesis .
next
  case (Some og)
  from inv have wf: "wf_lists n st" by (simp add: slots_inv_def)
  from wf Some obtain s dd xl where
    s: "shareds st (shared og) = Some s" and dd: "dicts st (dict og) = Some dd"
    and xl: "xlats st (xlat og) = Some xl"
    unfolding wf_lists_def by blast
  note reg = wf_lists_registry [OF wf s]
  let ?ps = "per_ctx_size s"
  from Some s reg(1) dd xl show ?thesis
  proof (cases rule: kdump_clone_cases)
    case (fail st1)
    with a have "same_stores st st'" by simp
    from slots_inv_same [OF this inv] show ?thesis .
  next
    case (ok c1 x d st1)
    with a have e: "c1 = c" "st1 = st'" by simp_all
    note k = ok(2-) [unfolded e]
    let ?y = "(fresh_ctx n x)\<lparr>data := d, shared := shared og, dict := dict og, xlat := xlat og\<rparr>"
    let ?s = "s\<lparr>refcnt := refcnt s + 1, ctx := c # ctx s\<rparr>"
    have live: "c0 \<noteq> c" if "ctxs st c0 = Some x0" for c0 x0 using that k(3) by auto
    have notin: "c \<notin> set (ctx s1)" if "shareds st sh1 = Some s1" for sh1 s1
    proof
      assume "c \<in> set (ctx s1)"
      from wf_lists_registry(4) [OF wf that this] k(3) show False by simp
    qed
    have wf': "wf_lists n st'"
      unfolding wf_lists_def
    proof (intro conjI allI impI ballI)
      show "shareds st' NULL = None" using k(12) reg(3) wf by (simp add: wf_lists_def)
    next
      fix sh1 s1 assume s1: "shareds st' sh1 = Some s1"
      show "length (per_ctx_size s1) = n"
        using s1 k(12) reg(1) wf by (auto simp: wf_lists_def split: if_splits)
      show "distinct (ctx s1)"
      proof (cases "sh1 = shared og")
        case True
        with s1 k(12) have "s1 = ?s" by simp
        with reg(2) notin [OF s] show ?thesis by simp
      next
        case False
        with s1 k(12) have "shareds st sh1 = Some s1" by simp
        from wf_lists_registry(2) [OF wf this] show ?thesis .
      qed
      fix c0 assume c0: "c0 \<in> set (ctx s1)"
      show "\<exists>x. ctxs st' c0 = Some x \<and> shared x = sh1"
      proof (cases "c0 = c")
        case True
        have "sh1 = shared og"
        proof (rule ccontr)
          assume "sh1 \<noteq> shared og"
          with s1 k(12) have "shareds st sh1 = Some s1" by simp
          from notin [OF this] c0 True show False by simp
        qed
        with True k(5) show ?thesis by simp
      next
        case False
        have "\<exists>s0. shareds st sh1 = Some s0 \<and> c0 \<in> set (ctx s0)"
        proof (cases "sh1 = shared og")
          case True
          with s1 k(12) have "s1 = ?s" by simp
          with c0 False have "c0 \<in> set (ctx s)" by simp
          with s True show ?thesis by simp
        next
          case False
          with s1 k(12) c0 show ?thesis by simp
        qed
        then obtain s0 where "shareds st sh1 = Some s0" "c0 \<in> set (ctx s0)" by blast
        from wf_lists_registry(4) [OF wf this] obtain x0 where
          "ctxs st c0 = Some x0" "shared x0 = sh1" by blast
        with False k(5) show ?thesis by simp
      qed
    next
      fix c0 x0 assume c0: "ctxs st' c0 = Some x0"
      have "length (data x0) = n \<and> shareds st' (shared x0) \<noteq> None \<and>
          dicts st' (dict x0) \<noteq> None \<and> xlats st' (xlat x0) \<noteq> None"
      proof (cases "c0 = c")
        case True
        with c0 k(5) have "x0 = ?y" by simp
        with k(6,12,13,14) show ?thesis by simp
      next
        case False
        with c0 k(5) have "ctxs st c0 = Some x0" by simp
        with wf have "length (data x0) = n" "shareds st (shared x0) \<noteq> None"
          "dicts st (dict x0) \<noteq> None" "xlats st (xlat x0) \<noteq> None"
          unfolding wf_lists_def by blast+
        with k(12,13,14) show ?thesis by auto
      qed
      then show "length (data x0) = n" "shareds st' (shared x0) \<noteq> None"
          "dicts st' (dict x0) \<noteq> None" "xlats st' (xlat x0) \<noteq> None" by simp_all
    qed
    have ss: "slot_size st' c0 i = (if c0 = c then ?ps ! i else slot_size st c0 i)" for c0 i
    proof (cases "c0 = c")
      case True
      with k(5,12) show ?thesis by (simp add: slot_size_def)
    next
      case False
      show ?thesis
      proof (cases "ctxs st c0")
        case None
        with False k(5) show ?thesis by (simp add: slot_size_def)
      next
        case (Some x0)
        with False k(5,12) s show ?thesis by (simp add: slot_size_def)
      qed
    qed
    have gd: "get_data c0 i st' = get_data c0 i st" if "c0 \<noteq> c" for c0 i
      using that k(5) by (simp add: get_data_def)
    have gc: "get_data c i st' = Some (d ! i)" if "i < n" for i
      using that k(5,6) by (simp add: get_data_def)
    have old_live: "\<exists>q b. get_data c0 i st' = Some q \<and> bufs st q = Some b"
      if "c0 \<noteq> c" "i < n" "slot_size st' c0 i \<noteq> 0" for c0 i
    proof -
      from ss [of c0 i] that have "slot_size st c0 i \<noteq> 0" by simp
      with inv that(2) gd [OF that(1)] show ?thesis unfolding slots_inv_def by metis
    qed
    show ?thesis
    proof (rule slots_inv_step [OF inv wf'])
      fix c0 i assume i: "i < n" "slot_size st' c0 i \<noteq> 0"
      show "(slot_size st c0 i = slot_size st' c0 i \<and>
           get_data c0 i st' = get_data c0 i st \<and>
           (\<forall>q. get_data c0 i st = Some q \<longrightarrow> bufs st' q = bufs st q)) \<or>
          (\<exists>q. get_data c0 i st' = Some q \<and> q \<noteq> NULL \<and> bufs st q = None \<and>
               bufs st' q = Some (replicate (slot_size st' c0 i) None))"
      proof (cases "c0 = c")
        case True
        with ss [of c0 i] i(2) have nz: "?ps ! i \<noteq> 0" "slot_size st' c0 i = ?ps ! i" by simp_all
        with k(8) i(1) have "d ! i \<noteq> NULL" "bufs st (d ! i) = None"
          "bufs st' (d ! i) = Some (replicate (?ps ! i) None)" by simp_all
        with gc [OF i(1)] True nz(2) show ?thesis by simp
      next
        case False
        from old_live [OF False i] gd [OF False] ss [of c0 i] False k(10)
        show ?thesis by auto
      qed
    next
      fix c0 i c1 i1
      assume i: "i < n" "slot_size st' c0 i \<noteq> 0" and i1: "i1 < n" "slot_size st' c1 i1 \<noteq> 0"
        and e: "get_data c0 i st' = get_data c1 i1 st'"
        and n: "\<exists>q. get_data c0 i st' = Some q \<and> bufs st q = None"
      have m: "c0 = c"
      proof (rule ccontr)
        assume "c0 \<noteq> c"
        from old_live [OF this i] n show False by auto
      qed
      have m1: "c1 = c"
      proof (rule ccontr)
        assume "c1 \<noteq> c"
        from old_live [OF this i1] n e show False by auto
      qed
      from m m1 e gc [OF i(1)] gc [OF i1(1)] have "d ! i = d ! i1" by simp
      moreover from m m1 ss [of c i] ss [of c i1] i(2) i1(2)
      have "?ps ! i \<noteq> 0" "?ps ! i1 \<noteq> 0" by simp_all
      ultimately have "i = i1" using k(9) i(1) i1(1) by blast
      with m m1 show "c0 = c1 \<and> i = i1" by simp
    qed
  qed
qed

lemma slots_inv_init: "slots_inv n (init_state al rl)"
  by (simp add: slots_inv_def wf_lists_def slot_size_def init_state_def)

lemma slot_step_inv:
  assumes "slots_inv n st" and "slot_step n x st = Some st'"
  shows "slots_inv n st'"
proof (cases x)
  case Op_new
  with assms(2) obtain c where "kdump_new n st = Some (c, st')" by auto
  from kdump_new_inv [OF assms(1) this] show ?thesis .
next
  case (Op_clone orig)
  with assms(2) obtain c where "kdump_clone n orig st = Some (c, st')" by auto
  from kdump_clone_inv [OF assms(1) this] show ?thesis .
next
  case (Op_alloc sh sz)
  with assms(2) obtain r where "per_ctx_alloc n sh sz st = Some (r, st')" by auto
  from per_ctx_alloc_inv [OF assms(1) this] show ?thesis .
next
  case (Op_free sh slot)
  with assms(2) obtain s where "shareds st sh = Some s" "0 \<le> slot" "slot < int n"
    "per_ctx_size s ! nat slot \<noteq> 0" "per_ctx_free n sh slot st = Some st'"
    by (auto split: option.splits if_splits)
  from per_ctx_free_inv [OF assms(1) this] show ?thesis .
qed

lemma slot_run_inv:
  "slots_inv n st \<Longrightarrow> slot_run n xs st = Some st' \<Longrightarrow> slots_inv n st'"
proof (induction xs arbitrary: st)
  case Nil
  then show ?case by simp
next
  case (Cons x xs)
  from Cons.prems(2) obtain st1 where
    1: "slot_step n x st = Some st1" and 2: "slot_run n xs st1 = Some st'"
    by (auto simp: bind_eq_Some_conv)
  from Cons.IH [OF slot_step_inv [OF Cons.prems(1) 1] 2] show ?case .
qed

lemma replicate_two: "replicate 2 x = [x, x]"
  by (simp add: numeral_2_eq_2)

lemmas slot_defs =
  per_ctx_alloc_def per_ctx_free_def slot_scan.simps malloc_def free_def set_size_def
  set_data_def get_data_def size_table_def ctx_list_def

lemma bind_SomeD: "Option.bind m f = Some y \<Longrightarrow> \<exists>x. m = Some x \<and> f x = Some y"
  by (cases m) simp_all



lemma refcnt_zero_iff: "(r :: 64 word) = 0 \<longleftrightarrow> unat r = 0"
  by (simp add: unat_eq_0)















lemma mallocs_succeed_cong:
  "allocs st2 = allocs st1 \<Longrightarrow> bufs st2 = bufs st1 \<Longrightarrow>
     mallocs_succeed k st2 = mallocs_succeed k st1"
  by (simp add: mallocs_succeed_def)

lemma malloc_succeeds:
  assumes "mallocs_succeed (Suc k) st"
  shows "\<exists>p st1. malloc sz st = (p, st1) \<and> p \<noteq> NULL \<and> mallocs_succeed k st1"
proof -
  from assms obtain a rest where al: "allocs st = a # rest"
    by (cases "allocs st") (auto simp: mallocs_succeed_def)
  with assms have g: "good_outcome (\<lambda>a. bufs st a \<noteq> None) a" and k: "k \<le> length rest"
    and d: "a \<notin> set (take k rest)" "distinct (take k rest)"
    and r: "list_all (good_outcome (\<lambda>a. bufs st a \<noteq> None)) (take k rest)"
    by (simp_all add: mallocs_succeed_def)
  from g obtain p where a: "a = Some p" and p: "p \<noteq> NULL" "bufs st p = None"
    by (cases a) auto
  let ?st1 = "st\<lparr>allocs := rest, bufs := (bufs st)(p \<mapsto> replicate sz None),
      trace := trace st @ [Alloc K_buf p]\<rparr>"
  from al a p have m: "malloc sz st = (p, ?st1)" by (simp add: malloc_def pick_def)
  have "good_outcome (\<lambda>a. bufs ?st1 a \<noteq> None) q" if "q \<in> set (take k rest)" for q
  proof -
    from r that have "good_outcome (\<lambda>a. bufs st a \<noteq> None) q" by (simp add: list_all_iff)
    moreover from that d(1) a have "q \<noteq> Some p" by auto
    ultimately show ?thesis by (cases q) auto
  qed
  then have "list_all (good_outcome (\<lambda>a. bufs ?st1 a \<noteq> None)) (take k rest)"
    by (simp add: list_all_iff)
  with k d(2) have "mallocs_succeed k ?st1" by (simp add: mallocs_succeed_def)
  with m p(1) show ?thesis by blast
qed

lemma alloc_loop_succeeds:
  "loop_ok sh slot prev cs st \<Longrightarrow> mallocs_succeed (length cs) st \<Longrightarrow>
     \<exists>st'. alloc_loop sh slot sz prev cs st = Some (Inr slot, st')"
proof (induction cs arbitrary: prev st)
  case Nil
  then show ?case by simp
next
  case (Cons c cs)
  from Cons.prems(2) have "mallocs_succeed (Suc (length cs)) st" by simp
  from malloc_succeeds [OF this, of sz] obtain p st1 where
    m: "malloc sz st = (p, st1)" and p: "p \<noteq> NULL" and k: "mallocs_succeed (length cs) st1"
    by blast
  from loop_ok_head [OF Cons.prems(1) m] obtain st2 where s: "set_data c slot p st1 = Some st2"
    by blast
  from set_data_frame [OF s] have "mallocs_succeed (length cs) st2 = mallocs_succeed (length cs) st1"
    by (intro mallocs_succeed_cong) simp_all
  with k have k2: "mallocs_succeed (length cs) st2" by simp
  from Cons.IH [OF loop_ok_step [OF Cons.prems(1) m p s] k2] obtain st' where
    "alloc_loop sh slot sz (c # prev) cs st2 = Some (Inr slot, st')" by blast
  with m p s show ?case by simp
qed

lemma per_ctx_alloc_succeeds:
  assumes r: "registry_ok n sh st" and s: "shareds st sh = Some s"
    and z: "j < n" "per_ctx_size s ! j = 0"
    and a: "mallocs_succeed (length (ctx s)) st"
  shows "\<exists>st'. per_ctx_alloc n sh sz st = Some (Inr (slot_scan n (per_ctx_size s) 0), st')"
proof -
  let ?k = "slot_scan n (per_ctx_size s) 0"
  from r s have len: "length (per_ctx_size s) = n" by (auto simp: registry_ok_def)
  have k: "?k < n"
  proof (rule ccontr)
    assume "\<not> ?k < n"
    with z(1) have "per_ctx_size s ! j \<noteq> 0"
      using slot_scan_used [of 0 j n "per_ctx_size s"] by simp
    with z(2) show False by simp
  qed
  with s len obtain st1 where s1: "set_size sh ?k sz st = Some st1"
    using set_size_live [of st sh s ?k sz] by auto
  from set_size_frame [OF s1] have
    "mallocs_succeed (length (ctx s)) st1 = mallocs_succeed (length (ctx s)) st"
    by (intro mallocs_succeed_cong) simp_all
  with a have a1: "mallocs_succeed (length (ctx s)) st1" by simp
  from alloc_loop_succeeds [OF registry_ok_loop_ok [OF r s k s1] a1] obtain st' where
    "alloc_loop sh ?k sz [] (ctx s) st1 = Some (Inr ?k, st')" by blast
  with s k s1 show ?thesis by (simp add: per_ctx_alloc_def Let_def)
qed

lemma used_slots_drop:
  "slot < length sizes \<Longrightarrow>
     used_slots (drop slot sizes) =
       (if sizes ! slot = 0 then 0 else 1) + used_slots (drop (Suc slot) sizes)"
  by (simp add: used_slots_def Cons_nth_drop_Suc [symmetric])

lemma clone_slots_succeeds:
  "clone_ok n sizes c slot st \<Longrightarrow> length sizes = n \<Longrightarrow>
     mallocs_succeed (used_slots (drop slot sizes)) st \<Longrightarrow>
     \<exists>st'. clone_slots n sizes c slot st = Some (True, st')"
proof (induction "n - slot" arbitrary: slot st)
  case 0
  then have "\<not> slot < n" by simp
  then have "clone_slots n sizes c slot st = Some (True, st)" by (simp add: clone_slots.simps)
  then show ?case by blast
next
  case (Suc k)
  then have lt: "slot < n" and k: "k = n - Suc slot" by simp_all
  from lt Suc.prems(2) have u: "used_slots (drop slot sizes) =
       (if sizes ! slot = 0 then 0 else 1) + used_slots (drop (Suc slot) sizes)"
    by (intro used_slots_drop) simp
  show ?case
  proof (cases "sizes ! slot = 0")
    case True
    with u Suc.prems(3) have "mallocs_succeed (used_slots (drop (Suc slot) sizes)) st" by simp
    from Suc.hyps(1) [OF k clone_ok_skip [OF Suc.prems(1) lt True] Suc.prems(2) this] lt True
    show ?thesis by (subst clone_slots.simps) simp
  next
    case False
    with u Suc.prems(3) have "mallocs_succeed (Suc (used_slots (drop (Suc slot) sizes))) st"
      by simp
    from malloc_succeeds [OF this, of "sizes ! slot"] obtain p st1 where
      m: "malloc (sizes ! slot) st = (p, st1)" and p: "p \<noteq> NULL"
      and a1: "mallocs_succeed (used_slots (drop (Suc slot) sizes)) st1" by blast
    from clone_ok_set [OF Suc.prems(1) lt m] obtain st2 where s: "set_data c slot p st1 = Some st2"
      by blast
    from set_data_frame [OF s] have "mallocs_succeed (used_slots (drop (Suc slot) sizes)) st2
        = mallocs_succeed (used_slots (drop (Suc slot) sizes)) st1"
      by (intro mallocs_succeed_cong) simp_all
    with a1 have a2: "mallocs_succeed (used_slots (drop (Suc slot) sizes)) st2" by simp
    from Suc.hyps(1) [OF k clone_ok_step [OF Suc.prems(1) lt m p s] Suc.prems(2) a2]
    obtain st' where "clone_slots n sizes c (Suc slot) st2 = Some (True, st')" by blast
    with lt False m p s show ?thesis by (subst clone_slots.simps) simp
  qed
qed

lemma alloc_ctx_succeeds:
  assumes "allocs st = Some c # Some x # rest" "c \<noteq> NULL" "ctxs st c = None"
    "x \<noteq> NULL" "xlatctxs st x = None"
  shows "\<exists>st1. alloc_ctx n st = Some (c, st1) \<and> allocs st1 = rest \<and> bufs st1 = bufs st \<and>
     ctxs st1 = (ctxs st)(c \<mapsto> fresh_ctx n x) \<and> shareds st1 = shareds st"
  using assms
  by (simp add: alloc_ctx_def calloc_ctx_def pick_def err_init_def upd_ctx_def
      init_addrxlat_def fresh_ctx_def zero_ctx_def)

lemma kdump_clone_result:
  assumes "alloc_ctx n st = Some (c, st1)" "c \<noteq> NULL" "ctxs st1 orig = Some og"
    "shareds st1 (shared og) = Some s" "clone_slots n (per_ctx_size s) c 0 st1 = Some (True, st2)"
    "kdump_clone n orig st = Some (r, st')"
  shows "r = c"
  using assms by (auto simp: kdump_clone_def bind_eq_Some_conv)

lemma kdump_clone_succeeds:
  assumes og: "ctxs st orig = Some og" and s: "shareds st (shared og) = Some s"
    and len: "length (per_ctx_size s) = n"
    and a: "clone_allocs_succeed (per_ctx_size s) st"
    and r: "kdump_clone n orig st = Some (r, st')"
  shows "r \<noteq> NULL"
proof -
  from a obtain a1 a2 rest where al: "allocs st = a1 # a2 # rest"
    and g1: "good_outcome (\<lambda>p. ctxs st p \<noteq> None) a1"
    and g2: "good_outcome (\<lambda>p. xlatctxs st p \<noteq> None) a2"
    and m: "mallocs_succeed (used_slots (per_ctx_size s)) (st\<lparr>allocs := rest\<rparr>)"
    by (auto simp: clone_allocs_succeed_def split: list.splits)
  from g1 obtain c where c: "a1 = Some c" "c \<noteq> NULL" "ctxs st c = None" by (cases a1) auto
  from g2 obtain x where x: "a2 = Some x" "x \<noteq> NULL" "xlatctxs st x = None" by (cases a2) auto
  from alloc_ctx_succeeds [OF al [unfolded c(1) x(1)] c(2,3) x(2,3), of n] obtain st1 where
    1: "alloc_ctx n st = Some (c, st1)" "allocs st1 = rest" "bufs st1 = bufs st"
      "ctxs st1 = (ctxs st)(c \<mapsto> fresh_ctx n x)" "shareds st1 = shareds st"
    by blast
  from c(3) og have ne: "orig \<noteq> c" by auto
  with 1(4) og have og1: "ctxs st1 orig = Some og" by simp
  from 1(5) s have s1: "shareds st1 (shared og) = Some s" by simp
  have "ctxs st1 c = Some (fresh_ctx n x)" using 1(4) by simp
  moreover have "length (data (fresh_ctx n x)) = n" by (simp add: fresh_ctx_def zero_ctx_def)
  ultimately have ok0: "clone_ok n (per_ctx_size s) c 0 st1" by (simp add: clone_ok_def)
  have "mallocs_succeed (used_slots (per_ctx_size s)) st1
      = mallocs_succeed (used_slots (per_ctx_size s)) (st\<lparr>allocs := rest\<rparr>)"
    using 1(2,3) by (intro mallocs_succeed_cong) simp_all
  with m have "mallocs_succeed (used_slots (drop 0 (per_ctx_size s))) st1" by simp
  from clone_slots_succeeds [OF ok0 len this] obtain st2 where
    "clone_slots n (per_ctx_size s) c 0 st1 = Some (True, st2)" by blast
  from kdump_clone_result [OF 1(1) c(2) og1 s1 this r] c(2) show ?thesis by simp
qed













section \<open>The claims\<close>

text \<open>
  C7. \<open>kdump_strerror\<close> is total over the status codes: each of the ten defined codes has
  its own non-empty text, and every other value of the type has the text
  \<open>Unknown error\<close>. No defined code has the fallback text, and two different defined codes
  have different texts.
\<close>

theorem kdump_strerror_total:
  "kdump_strerror KDUMP_OK = ''Success'' \<and>
   kdump_strerror KDUMP_ERR_SYSTEM = ''OS error'' \<and>
   kdump_strerror KDUMP_ERR_NOTIMPL = ''Unimplemented feature'' \<and>
   kdump_strerror KDUMP_ERR_NODATA = ''Data is not stored in the dump file'' \<and>
   kdump_strerror KDUMP_ERR_CORRUPT = ''Corrupted file data'' \<and>
   kdump_strerror KDUMP_ERR_INVALID = ''Invalid value'' \<and>
   kdump_strerror KDUMP_ERR_NOKEY = ''No such attribute key'' \<and>
   kdump_strerror KDUMP_ERR_EOF = ''Unexpected EOF'' \<and>
   kdump_strerror KDUMP_ERR_BUSY = ''Too many pending requests'' \<and>
   kdump_strerror KDUMP_ERR_ADDRXLAT = ''Address translation error'' \<and>
   kdump_strerror (KDUMP_other v) = ''Unknown error'' \<and>
   kdump_strerror status \<noteq> [] \<and>
   (kdump_strerror status = ''Unknown error'' \<longleftrightarrow> (\<exists>w. status = KDUMP_other w)) \<and>
   (kdump_strerror status = kdump_strerror status' \<longrightarrow>
      status = status' \<or> (\<exists>w w'. status = KDUMP_other w \<and> status' = KDUMP_other w'))"
  by (cases status; cases status'; simp)

theorem kdump_strerror_total_witness:
  "kdump_strerror (KDUMP_other 77) = ''Unknown error'' \<and>
   kdump_strerror KDUMP_ERR_EOF \<noteq> kdump_strerror KDUMP_ERR_BUSY"
  using kdump_strerror_total [of 77 KDUMP_ERR_EOF KDUMP_ERR_BUSY] by simp

text \<open>
  C8. \<open>per_ctx_alloc\<close> is first-fit: a slot number it returns is the lowest index whose
  entry of the size table is zero, and the entry becomes the requested size. When no
  entry is zero the call returns -1 with \<open>errno = EAGAIN\<close> and changes nothing; it
  returns \<open>EAGAIN\<close> in no other case. When some entry is zero and the allocator has a
  new buffer for every attached context, the call does return a slot number (the lowest
  index with a zero entry).
\<close>

theorem per_ctx_alloc_first_fit:
  assumes "shareds st sh = Some s" and "length (per_ctx_size s) = n"
  shows "(\<forall>r st'. per_ctx_alloc n sh sz st = Some (Inr r, st') \<longrightarrow>
            r < n \<and> per_ctx_size s ! r = 0 \<and> (\<forall>j<r. per_ctx_size s ! j \<noteq> 0) \<and>
            shareds st' = (shareds st)(sh \<mapsto> s\<lparr>per_ctx_size := (per_ctx_size s)[r := sz]\<rparr>)) \<and>
         ((\<forall>j<n. per_ctx_size s ! j \<noteq> 0) \<longrightarrow>
            per_ctx_alloc n sh sz st = Some (Inl EAGAIN, st)) \<and>
         (\<forall>st'. per_ctx_alloc n sh sz st = Some (Inl EAGAIN, st') \<longrightarrow>
            (\<forall>j<n. per_ctx_size s ! j \<noteq> 0) \<and> st' = st) \<and>
         (registry_ok n sh st \<and> (\<exists>j<n. per_ctx_size s ! j = 0) \<and>
          mallocs_succeed (length (ctx s)) st \<longrightarrow>
            (\<exists>r st'. per_ctx_alloc n sh sz st = Some (Inr r, st') \<and> r < n \<and>
               per_ctx_size s ! r = 0 \<and> (\<forall>j<r. per_ctx_size s ! j \<noteq> 0)))"
proof (intro conjI allI impI)
  let ?k = "slot_scan n (per_ctx_size s) 0"
  {
    assume h: "registry_ok n sh st \<and> (\<exists>j<n. per_ctx_size s ! j = 0) \<and>
          mallocs_succeed (length (ctx s)) st"
    then obtain j where j: "j < n" "per_ctx_size s ! j = 0" by blast
    from h have r: "registry_ok n sh st" and m: "mallocs_succeed (length (ctx s)) st"
      by simp_all
    from per_ctx_alloc_succeeds [OF r assms(1) j m] obtain st' where
      a: "per_ctx_alloc n sh sz st = Some (Inr ?k, st')" by blast
    have k: "?k < n"
    proof (rule ccontr)
      assume "\<not> ?k < n"
      with assms a show False by (simp add: per_ctx_alloc_def Let_def)
    qed
    then have "per_ctx_size s ! ?k = 0" by (rule slot_scan_free)
    moreover have "\<forall>i < ?k. per_ctx_size s ! i \<noteq> 0"
      using k slot_scan_used [of 0 _ n "per_ctx_size s"] by simp
    ultimately show "\<exists>r st'. per_ctx_alloc n sh sz st = Some (Inr r, st') \<and> r < n \<and>
               per_ctx_size s ! r = 0 \<and> (\<forall>j<r. per_ctx_size s ! j \<noteq> 0)"
      using a k by blast
  next
    fix r st'
    assume a: "per_ctx_alloc n sh sz st = Some (Inr r, st')"
    with assms obtain st1 where
      k: "?k < n" and s1: "set_size sh ?k sz st = Some st1" and
      l: "alloc_loop sh ?k sz [] (ctx s) st1 = Some (Inr r, st')"
      by (auto simp: per_ctx_alloc_def Let_def bind_eq_Some_conv split: if_splits)
    from alloc_loop_Inr [OF l] have r: "r = ?k" and sh: "shareds st' = shareds st1" by simp_all
    from k r show "r < n" by simp
    from k r show "per_ctx_size s ! r = 0" by (simp add: slot_scan_free)
    from set_size_shareds [OF s1] assms sh r
    show "shareds st' = (shareds st)(sh \<mapsto> s\<lparr>per_ctx_size := (per_ctx_size s)[r := sz]\<rparr>)"
      by auto
    fix j assume "j < r"
    with r k show "per_ctx_size s ! j \<noteq> 0"
      using slot_scan_used [of 0 j n "per_ctx_size s"] by simp
  next
    assume full: "\<forall>j<n. per_ctx_size s ! j \<noteq> 0"
    have "\<not> ?k < n"
    proof
      assume "?k < n"
      with full slot_scan_free [of n "per_ctx_size s" 0] show False by auto
    qed
    with assms show "per_ctx_alloc n sh sz st = Some (Inl EAGAIN, st)"
      by (simp add: per_ctx_alloc_def Let_def)
  next
    fix st'
    assume a: "per_ctx_alloc n sh sz st = Some (Inl EAGAIN, st')"
    have k: "\<not> ?k < n"
    proof
      assume k: "?k < n"
      with a assms obtain st1 where
        "alloc_loop sh ?k sz [] (ctx s) st1 = Some (Inl EAGAIN, st')"
        by (auto simp: per_ctx_alloc_def Let_def bind_eq_Some_conv split: if_splits)
      from alloc_loop_Inl [OF this] show False by simp
    qed
    with a assms show "st' = st"
      by (auto simp: per_ctx_alloc_def Let_def bind_eq_Some_conv split: if_splits)
    fix j assume "j < n"
    with k show "per_ctx_size s ! j \<noteq> 0"
      using slot_scan_used [of 0 j n "per_ctx_size s"] by simp
  }
qed


theorem per_ctx_alloc_first_fit_witness:
  "per_ctx_alloc 2 1 8 (ex_state [16, 4] [0, 0] [0, 0] Map.empty [Some 5, Some 6])
     = Some (Inl EAGAIN, ex_state [16, 4] [0, 0] [0, 0] Map.empty [Some 5, Some 6]) \<and>
   (\<exists>st'. per_ctx_alloc 2 1 4
        (ex_state [8, 0] [6, 0] [5, 0] [5 \<mapsto> replicate 8 (Some 1), 6 \<mapsto> replicate 8 (Some 2)]
           [Some 7, Some 9]) = Some (Inr 1, st') \<and>
      size_table 1 st' = Some [8, 4])"
proof
  show "per_ctx_alloc 2 1 8 (ex_state [16, 4] [0, 0] [0, 0] Map.empty [Some 5, Some 6])
     = Some (Inl EAGAIN, ex_state [16, 4] [0, 0] [0, 0] Map.empty [Some 5, Some 6])"
    using per_ctx_alloc_first_fit [of "ex_state [16, 4] [0, 0] [0, 0] Map.empty [Some 5, Some 6]" 1
      "\<lparr>refcnt = 2, ctx = [11, 10], per_ctx_size = [16, 4]\<rparr>" 2 8]
    by (simp add: ex_state_def less_Suc_eq numeral_2_eq_2)
next
  let ?st = "ex_state [8, 0] [6, 0] [5, 0]
      [5 \<mapsto> replicate 8 (Some 1), 6 \<mapsto> replicate 8 (Some 2)] [Some 7, Some 9]"
  let ?s = "\<lparr>refcnt = 2, ctx = [11, 10], per_ctx_size = [8, 0]\<rparr>"
  have s: "shareds ?st 1 = Some ?s" by (simp add: ex_state_def)
  have len: "length (per_ctx_size ?s) = 2" by simp
  have r: "registry_ok 2 1 ?st" by (simp add: registry_ok_def ex_state_def ex_ctx_def)
  have z: "\<exists>j<2. per_ctx_size ?s ! j = 0" by (intro exI [of _ 1]) simp
  have m: "mallocs_succeed (length (ctx ?s)) ?st"
    by (simp add: mallocs_succeed_def ex_state_def numeral_2_eq_2)
  note t = per_ctx_alloc_first_fit [OF s len, of 4]
  from t r z m obtain k st' where
    a: "per_ctx_alloc 2 1 4 ?st = Some (Inr k, st')" and k: "k < 2" "per_ctx_size ?s ! k = 0"
    by blast
  from k have k1: "k = 1" by (cases k) simp_all
  from t a have "shareds st' = (shareds ?st)(1 \<mapsto> ?s\<lparr>per_ctx_size := (per_ctx_size ?s)[k := 4]\<rparr>)"
    by blast
  with k1 have "size_table 1 st' = Some [8, 4]" by (simp add: size_table_def)
  with a k1 show "\<exists>st'. per_ctx_alloc 2 1 4 ?st = Some (Inr 1, st') \<and>
      size_table 1 st' = Some [8, 4]" by blast
qed

text \<open>
  C1 (amended). For a registry with live, pairwise different attached contexts,
  \<open>per_ctx_alloc\<close> returns, and it changes nothing in any context but the pointer at the
  slot it searched out. Either it succeeds: it returns that slot, records the size
  there, and every attached context holds at that slot a non-null buffer of \<open>sz\<close> bytes
  that was not live before the call, no two contexts the same one, while every buffer
  that was live before is untouched. Or it fails: the size table of the registry and the
  live buffers are as before the call; with \<open>EAGAIN\<close> the whole state is as before; with
  \<open>ENOMEM\<close> the pointers at the slot are not restored: the contexts visited before the
  failing one keep the pointer to their freed buffer, the failing one holds null, the
  ones after it are unchanged.
\<close>

theorem per_ctx_alloc_all_or_nothing:
  assumes r: "registry_ok n sh st" and s: "shareds st sh = Some s"
  shows "\<exists>r st'. per_ctx_alloc n sh sz st = Some (r, st') \<and>
     (\<forall>c. ctxs st c = None \<longrightarrow> ctxs st' c = None) \<and>
     (\<forall>c x. ctxs st c = Some x \<longrightarrow>
        (\<exists>q. ctxs st' c = Some (x\<lparr>data := (data x)[slot_scan n (per_ctx_size s) 0 := q]\<rparr>))) \<and>
     (case r of
        Inr slot \<Rightarrow>
          slot < n \<and> slot = slot_scan n (per_ctx_size s) 0 \<and>
          shareds st' = (shareds st)(sh \<mapsto> s\<lparr>per_ctx_size := (per_ctx_size s)[slot := sz]\<rparr>) \<and>
          (\<forall>c\<in>set (ctx s). \<exists>q. get_data c slot st' = Some q \<and> q \<noteq> NULL \<and>
              bufs st q = None \<and> bufs st' q = Some (replicate sz None)) \<and>
          (\<forall>c\<in>set (ctx s). \<forall>c'\<in>set (ctx s). c \<noteq> c' \<longrightarrow>
              get_data c slot st' \<noteq> get_data c' slot st') \<and>
          (\<forall>a. bufs st a \<noteq> None \<longrightarrow> bufs st' a = bufs st a)
      | Inl e \<Rightarrow>
          shareds st' = shareds st \<and> bufs st' = bufs st \<and>
          (e = EAGAIN \<and> st' = st \<or>
           e = ENOMEM \<and>
           (\<exists>before c rest. ctx s = before @ c # rest \<and>
              get_data c (slot_scan n (per_ctx_size s) 0) st' = Some NULL \<and>
              (\<forall>c'\<in>set rest. ctxs st' c' = ctxs st c') \<and>
              (\<forall>c'\<in>set before. \<exists>q.
                  get_data c' (slot_scan n (per_ctx_size s) 0) st' = Some q \<and>
                  q \<noteq> NULL \<and> bufs st' q = None))))"
  using r s by (rule per_ctx_alloc_effect)

text \<open>
  The claim as stated fails: with two attached contexts and a failure of the second
  allocation, the call fails and the first context visited (context 11) holds the
  pointer 5 at slot 0, where it held null before the call.
\<close>

theorem per_ctx_alloc_rollback_counterexample:
  "map_option fst (per_ctx_alloc 2 1 8 (ex_state [0, 0] [0, 0] [0, 0] Map.empty [Some 5, None]))
     = Some (Inl ENOMEM) \<and>
   Option.bind (per_ctx_alloc 2 1 8 (ex_state [0, 0] [0, 0] [0, 0] Map.empty [Some 5, None]))
     (get_data 11 0 \<circ> snd) = Some 5 \<and>
   get_data 11 0 (ex_state [0, 0] [0, 0] [0, 0] Map.empty [Some 5, None]) = Some NULL"
  by (simp add: per_ctx_alloc_def slot_scan.simps run_defs)

theorem per_ctx_alloc_all_or_nothing_witness:
  "registry_ok 2 1 (ex_state [0, 0] [0, 0] [0, 0] Map.empty [Some 5, Some 6]) \<and>
   (\<exists>r st'. per_ctx_alloc 2 1 8 (ex_state [0, 0] [0, 0] [0, 0] Map.empty [Some 5, Some 6])
      = Some (r, st'))"
proof -
  let ?st = "ex_state [0, 0] [0, 0] [0, 0] Map.empty [Some 5, Some 6]"
  have r: "registry_ok 2 1 ?st" by (simp add: registry_ok_def ex_state_def ex_ctx_def)
  have s: "shareds ?st 1 = Some \<lparr>refcnt = 2, ctx = [11, 10], per_ctx_size = [0, 0]\<rparr>"
    by (simp add: ex_state_def)
  from per_ctx_alloc_all_or_nothing [OF r s, of 8] r show ?thesis by blast
qed



text \<open>The second call returns slot 0 again; the buffers 5 and 6 of the first call stay live.\<close>

lemma ex_alloc_zero_twice:
  "map_option fst (Option.bind (per_ctx_alloc 2 1 0 (ex_state [0, 0] [0, 0] [0, 0] Map.empty
      [Some 5, Some 6, Some 7, Some 8])) (per_ctx_alloc 2 1 16 \<circ> snd)) = Some (Inr 0)"
  by (simp add: per_ctx_alloc_def slot_scan.simps run_defs)

text \<open>
  C6 (amended). For a slot index within the table, at which every attached context holds
  a null pointer or a live buffer of its own, \<open>per_ctx_free\<close> returns: it resets the entry
  of the size table to zero and frees the buffer of every attached context (the buffer is
  no longer live; all other buffers are untouched). The contexts themselves are not
  written: each keeps at that index the pointer it held before the call.
\<close>

theorem per_ctx_free_frees:
  assumes s: "shareds st sh = Some s" and len: "length (per_ctx_size s) = n"
    and lo: "0 \<le> slot" and hi: "slot < int n"
    and f: "freeable (nat slot) (ctx s) st"
  shows "\<exists>st' s'. per_ctx_free n sh slot st = Some st' \<and>
     shareds st' = (shareds st)(sh \<mapsto> s') \<and>
     s' = s\<lparr>per_ctx_size := (per_ctx_size s)[nat slot := 0]\<rparr> \<and>
     per_ctx_size s' ! nat slot = 0 \<and>
     ctxs st' = ctxs st \<and>
     (\<forall>c\<in>set (ctx s). \<exists>q. get_data c (nat slot) st = Some q \<and>
         get_data c (nat slot) st' = Some q \<and> (q \<noteq> NULL \<longrightarrow> bufs st' q = None)) \<and>
     (\<forall>a. a \<notin> slot_ptrs (nat slot) (ctx s) st \<longrightarrow> bufs st' a = bufs st a)"
proof -
  from per_ctx_free_effect [OF s len lo hi f] obtain st' where
    1: "per_ctx_free n sh slot st = Some st'" and
    2: "shareds st' = (shareds st)(sh \<mapsto> s\<lparr>per_ctx_size := (per_ctx_size s)[nat slot := 0]\<rparr>)" and
    3: "ctxs st' = ctxs st" and
    4: "\<forall>a. bufs st' a = (if a \<in> slot_ptrs (nat slot) (ctx s) st then None else bufs st a)"
    by blast
  from lo hi len have 5: "(per_ctx_size s)[nat slot := 0] ! nat slot = 0" by simp
  have 6: "\<exists>q. get_data c (nat slot) st = Some q \<and>
         get_data c (nat slot) st' = Some q \<and> (q \<noteq> NULL \<longrightarrow> bufs st' q = None)"
    if c: "c \<in> set (ctx s)" for c
  proof -
    from f c obtain q where q: "get_data c (nat slot) st = Some q" by (auto simp: freeable_def)
    from 3 have "get_data c (nat slot) st' = get_data c (nat slot) st" by (rule get_data_ctxs)
    moreover have "bufs st' q = None" if "q \<noteq> NULL"
    proof -
      from q c that have "q \<in> slot_ptrs (nat slot) (ctx s) st" by (auto simp: slot_ptrs_def)
      with 4 show ?thesis by simp
    qed
    ultimately show ?thesis using q by simp
  qed
  from 1 2 3 4 5 6 show ?thesis by simp
qed

theorem per_ctx_free_frees_witness:
  "freeable (nat 0) [11, 10]
     (ex_state [8, 0] [6, 0] [5, 0] [5 \<mapsto> replicate 8 None, 6 \<mapsto> replicate 8 None] []) \<and>
   (\<exists>st'. per_ctx_free 2 1 0
       (ex_state [8, 0] [6, 0] [5, 0] [5 \<mapsto> replicate 8 None, 6 \<mapsto> replicate 8 None] [])
         = Some st' \<and>
       ctxs st' = ctxs (ex_state [8, 0] [6, 0] [5, 0]
         [5 \<mapsto> replicate 8 None, 6 \<mapsto> replicate 8 None] []))"
proof -
  let ?st = "ex_state [8, 0] [6, 0] [5, 0] [5 \<mapsto> replicate 8 None, 6 \<mapsto> replicate 8 None] []"
  let ?s = "\<lparr>refcnt = 2, ctx = [11, 10], per_ctx_size = [8, 0]\<rparr>"
  have s: "shareds ?st 1 = Some ?s" by (simp add: ex_state_def)
  have f: "freeable (nat 0) (ctx ?s) ?st" by (simp add: freeable_def run_defs)
  from per_ctx_free_frees [OF s _ _ _ f, of 2] f show ?thesis by auto
qed

text \<open>
  The claim as stated fails: after \<open>per_ctx_free\<close> of slot 0, context 11 still shows the
  pointer 5 at index 0, not null. Nor does the call return for every index: a second
  \<open>per_ctx_free\<close> of the same slot frees the stale pointers again, and index 2 is outside
  a table of two entries; both are undefined behaviour.
\<close>

theorem per_ctx_free_null_counterexample:
  "Option.bind (per_ctx_free 2 1 0
       (ex_state [8, 0] [6, 0] [5, 0] [5 \<mapsto> replicate 8 None, 6 \<mapsto> replicate 8 None] []))
     (get_data 11 0) = Some 5 \<and>
   Option.bind (per_ctx_free 2 1 0
       (ex_state [8, 0] [6, 0] [5, 0] [5 \<mapsto> replicate 8 None, 6 \<mapsto> replicate 8 None] []))
     (per_ctx_free 2 1 0) = None \<and>
   per_ctx_free 2 1 2
       (ex_state [8, 0] [6, 0] [5, 0] [5 \<mapsto> replicate 8 None, 6 \<mapsto> replicate 8 None] [])
     = None"
  by (simp add: per_ctx_free_def run_defs)

text \<open>
  C5. \<open>kdump_new\<close> always returns. When it returns \<open>NULL\<close>, every store is as it was before
  the call, so nothing it allocated is left, and the trace of the call is a proper prefix
  of the five allocations (context, coordinate-system handle, shared registry, attribute
  dictionary, translation domain) followed by the matching releases in reverse order.
  When it returns a context, all five objects are new, hold one reference each, and the
  context is the only entry of the lists of the registry and of the translation domain.
  So a failure of any of the five steps makes the call return \<open>NULL\<close>.
\<close>

theorem kdump_new_all_or_nothing:
  "\<exists>c st'. kdump_new n st = Some (c, st') \<and>
     (c = NULL \<longrightarrow>
        same_stores st st' \<and>
        (\<exists>evs c x s d t k. k < 5 \<and>
           evs = take k [Alloc K_ctx c, Alloc K_xlatctx x, Alloc K_shared s, Alloc K_dict d,
                         Alloc K_xlat t] \<and>
           trace st' = trace st @ unwound evs)) \<and>
     (c \<noteq> NULL \<longrightarrow>
        (\<exists>x s d t. x \<noteq> NULL \<and> s \<noteq> NULL \<and> d \<noteq> NULL \<and> t \<noteq> NULL \<and>
           ctxs st c = None \<and> xlatctxs st x = None \<and> shareds st s = None \<and>
           dicts st d = None \<and> xlats st t = None \<and>
           ctxs st' = (ctxs st)(c \<mapsto> (fresh_ctx n x)\<lparr>shared := s, dict := d, xlat := t\<rparr>) \<and>
           xlatctxs st' = (xlatctxs st)(x \<mapsto> 1) \<and>
           shareds st' = (shareds st)(s \<mapsto> \<lparr>refcnt = 1, ctx = [c], per_ctx_size = replicate n 0\<rparr>) \<and>
           dicts st' = (dicts st)(d \<mapsto> \<lparr>dict_refcnt = 1, dict_shared = s, cache_size_set = True\<rparr>) \<and>
           xlats st' = (xlats st)(t \<mapsto> \<lparr>xlat_refcnt = 1, xlat_ctx = [c]\<rparr>) \<and>
           bufs st' = bufs st \<and>
           trace st' = trace st @ [Alloc K_ctx c, Alloc K_xlatctx x, Alloc K_shared s,
                                    Alloc K_dict d, Alloc K_xlat t]))"
proof (cases n st rule: kdump_new_cases)
  case (fail st' evs)
  then show ?thesis by blast
next
  case (ok c x s d t st')
  then show ?thesis by blast
qed

theorem kdump_new_all_or_nothing_witness:
  "(\<exists>st'. kdump_new 2 (init_state [Some 10, Some 40, Some 1, None] [True]) = Some (NULL, st') \<and>
      same_stores (init_state [Some 10, Some 40, Some 1, None] [True]) st') \<and>
   (\<exists>st'. kdump_new 2 (init_state [Some 10, Some 40, Some 1, Some 2, Some 3] [True])
      = Some (10, st') \<and> bufs st' = Map.empty)"
proof -
  let ?a = "init_state [Some 10, Some 40, Some 1, None] [True]"
  let ?b = "init_state [Some 10, Some 40, Some 1, Some 2, Some 3] [True]"
  have 1: "map_option fst (kdump_new 2 ?a) = Some NULL" by (simp add: new_defs)
  have 2: "map_option fst (kdump_new 2 ?b) = Some 10" by (simp add: new_defs)
  from kdump_new_all_or_nothing [of 2 ?a] 1
  have a: "\<exists>st'. kdump_new 2 ?a = Some (NULL, st') \<and> same_stores ?a st'" by auto
  from kdump_new_all_or_nothing [of 2 ?b] 2
  have b: "\<exists>st'. kdump_new 2 ?b = Some (10, st') \<and> bufs st' = bufs ?b" by auto
  have "bufs ?b = Map.empty" by (simp add: init_state_def)
  with a b show ?thesis by simp
qed

text \<open>
  C4. For an original context whose registry, dictionary and translation domain are
  live, \<open>kdump_clone\<close> returns. When it returns a context, the context is new and holds,
  at every slot index whose size entry is nonzero, a non-null buffer of the recorded size
  that was not live before (no two indices the same buffer), and null at every other
  index; it is the first entry of the lists of the registry and of the translation
  domain. When it returns \<open>NULL\<close>, every store is as before the call: the buffers
  allocated for earlier indices and the coordinate-system handle are gone again, and no
  list and no reference count has changed. It does return a context when the allocator
  has a new context, a new handle and a new buffer for every slot in use.
\<close>

theorem kdump_clone_all_or_nothing:
  assumes og: "ctxs st orig = Some og" and s: "shareds st (shared og) = Some s"
    and len: "length (per_ctx_size s) = n"
    and dd: "dicts st (dict og) = Some dd" and xl: "xlats st (xlat og) = Some xl"
  shows "\<exists>c st'. kdump_clone n orig st = Some (c, st') \<and>
     (c = NULL \<longrightarrow> same_stores st st') \<and>
     (clone_allocs_succeed (per_ctx_size s) st \<longrightarrow> c \<noteq> NULL) \<and>
     (c \<noteq> NULL \<longrightarrow>
        ctxs st c = None \<and>
        (\<exists>y. ctxs st' = (ctxs st)(c \<mapsto> y) \<and> length (data y) = n \<and>
           shared y = shared og \<and> dict y = dict og \<and> xlat y = xlat og \<and>
           (\<forall>j<n. per_ctx_size s ! j \<noteq> 0 \<longrightarrow>
              data y ! j \<noteq> NULL \<and> bufs st (data y ! j) = None \<and>
              bufs st' (data y ! j) = Some (replicate (per_ctx_size s ! j) None)) \<and>
           (\<forall>j<n. per_ctx_size s ! j = 0 \<longrightarrow> data y ! j = NULL) \<and>
           (\<forall>i<n. \<forall>j<n. i \<noteq> j \<longrightarrow> per_ctx_size s ! i \<noteq> 0 \<longrightarrow> per_ctx_size s ! j \<noteq> 0 \<longrightarrow>
              data y ! i \<noteq> data y ! j)) \<and>
        (\<forall>a. bufs st a \<noteq> None \<longrightarrow> bufs st' a = bufs st a) \<and>
        shareds st' = (shareds st)(shared og \<mapsto> s\<lparr>refcnt := refcnt s + 1, ctx := c # ctx s\<rparr>) \<and>
        xlats st' = (xlats st)(xlat og \<mapsto> xl\<lparr>xlat_refcnt := xlat_refcnt xl + 1,
            xlat_ctx := c # xlat_ctx xl\<rparr>))"
  using og s len dd xl
proof (cases rule: kdump_clone_cases)
  case (fail st')
  have "\<not> clone_allocs_succeed (per_ctx_size s) st"
    using kdump_clone_succeeds [OF og s len _ fail(1)] by blast
  with fail show ?thesis by simp
next
  case (ok c x d st')
  let ?y = "(fresh_ctx n x)\<lparr>data := d, shared := shared og, dict := dict og, xlat := xlat og\<rparr>"
  have y: "data ?y = d" "shared ?y = shared og" "dict ?y = dict og" "xlat ?y = xlat og"
    by simp_all
  have "\<exists>y. ctxs st' = (ctxs st)(c \<mapsto> y) \<and> length (data y) = n \<and>
           shared y = shared og \<and> dict y = dict og \<and> xlat y = xlat og \<and>
           (\<forall>j<n. per_ctx_size s ! j \<noteq> 0 \<longrightarrow>
              data y ! j \<noteq> NULL \<and> bufs st (data y ! j) = None \<and>
              bufs st' (data y ! j) = Some (replicate (per_ctx_size s ! j) None)) \<and>
           (\<forall>j<n. per_ctx_size s ! j = 0 \<longrightarrow> data y ! j = NULL) \<and>
           (\<forall>i<n. \<forall>j<n. i \<noteq> j \<longrightarrow> per_ctx_size s ! i \<noteq> 0 \<longrightarrow> per_ctx_size s ! j \<noteq> 0 \<longrightarrow>
              data y ! i \<noteq> data y ! j)"
  proof (intro exI [of _ ?y] conjI)
    show "ctxs st' = (ctxs st)(c \<mapsto> ?y)" by (rule ok(6))
    show "length (data ?y) = n" unfolding y by (rule ok(7))
    show "shared ?y = shared og" "dict ?y = dict og" "xlat ?y = xlat og" by simp_all
    show "\<forall>j<n. per_ctx_size s ! j \<noteq> 0 \<longrightarrow>
              data ?y ! j \<noteq> NULL \<and> bufs st (data ?y ! j) = None \<and>
              bufs st' (data ?y ! j) = Some (replicate (per_ctx_size s ! j) None)"
      unfolding y by (rule ok(9))
    show "\<forall>j<n. per_ctx_size s ! j = 0 \<longrightarrow> data ?y ! j = NULL" unfolding y by (rule ok(8))
    show "\<forall>i<n. \<forall>j<n. i \<noteq> j \<longrightarrow> per_ctx_size s ! i \<noteq> 0 \<longrightarrow> per_ctx_size s ! j \<noteq> 0 \<longrightarrow>
              data ?y ! i \<noteq> data ?y ! j" unfolding y by (rule ok(10))
  qed
  with ok(1,2,4,11,13,15) show ?thesis by blast
qed

theorem kdump_clone_all_or_nothing_witness:
  "(\<exists>st'. kdump_clone 2 10
       (ex_state [8, 4] [6, 8] [5, 9]
          [5 \<mapsto> replicate 8 (Some 1), 6 \<mapsto> replicate 8 (Some 2),
           8 \<mapsto> replicate 4 (Some 3), 9 \<mapsto> replicate 4 (Some 4)]
          [Some 12, Some 42, Some 7, None]) = Some (NULL, st') \<and>
     same_stores
       (ex_state [8, 4] [6, 8] [5, 9]
          [5 \<mapsto> replicate 8 (Some 1), 6 \<mapsto> replicate 8 (Some 2),
           8 \<mapsto> replicate 4 (Some 3), 9 \<mapsto> replicate 4 (Some 4)]
          [Some 12, Some 42, Some 7, None]) st' \<and>
     trace st' = [Alloc K_ctx 12, Alloc K_xlatctx 42, Alloc K_buf 7, Free K_buf 7,
       Free K_xlatctx 42, Free K_ctx 12]) \<and>
   (\<exists>st'. kdump_clone 2 10
       (ex_state [8, 4] [6, 8] [5, 9]
          [5 \<mapsto> replicate 8 (Some 1), 6 \<mapsto> replicate 8 (Some 2),
           8 \<mapsto> replicate 4 (Some 3), 9 \<mapsto> replicate 4 (Some 4)]
          [Some 12, Some 42, Some 7, Some 13]) = Some (12, st') \<and>
     get_data 12 0 st' = Some 7 \<and> get_data 12 1 st' = Some 13 \<and>
     bufs st' 7 = Some (replicate 8 None) \<and> bufs st' 13 = Some (replicate 4 None) \<and>
     ctx_list 1 st' = Some [12, 11, 10])"
proof
  let ?bs = "[5 \<mapsto> replicate 8 (Some 1), 6 \<mapsto> replicate 8 (Some 2),
           8 \<mapsto> replicate 4 (Some 3), 9 \<mapsto> replicate 4 (Some (4::byte))]"
  let ?s = "\<lparr>refcnt = 2, ctx = [11, 10], per_ctx_size = [8, 4]\<rparr>"
  let ?dd = "\<lparr>dict_refcnt = 2, dict_shared = 1, cache_size_set = True\<rparr>"
  let ?xl = "\<lparr>xlat_refcnt = 2, xlat_ctx = [11, 10]\<rparr>"
  have og: "ctxs (ex_state [8, 4] [6, 8] [5, 9] ?bs al) 10 = Some (ex_ctx 40 [6, 8])" for al
    by (simp add: ex_state_def)
  have s: "shareds (ex_state [8, 4] [6, 8] [5, 9] ?bs al) (shared (ex_ctx 40 [6, 8])) = Some ?s"
    for al by (simp add: ex_state_def ex_ctx_def)
  have len: "length (per_ctx_size ?s) = 2" by simp
  have dd: "dicts (ex_state [8, 4] [6, 8] [5, 9] ?bs al) (dict (ex_ctx 40 [6, 8])) = Some ?dd"
    for al by (simp add: ex_state_def ex_ctx_def)
  have xl: "xlats (ex_state [8, 4] [6, 8] [5, 9] ?bs al) (xlat (ex_ctx 40 [6, 8])) = Some ?xl"
    for al by (simp add: ex_state_def ex_ctx_def)
  {
    let ?st = "ex_state [8, 4] [6, 8] [5, 9] ?bs [Some 12, Some 42, Some 7, None]"
    have 1: "map_option (\<lambda>r. (fst r, trace (snd r))) (kdump_clone 2 10 ?st)
        = Some (NULL, [Alloc K_ctx 12, Alloc K_xlatctx 42, Alloc K_buf 7, Free K_buf 7,
             Free K_xlatctx 42, Free K_ctx 12])"
      by (simp add: clone_defs)
    from kdump_clone_all_or_nothing [OF og s len dd xl] obtain c st' where
      r: "kdump_clone 2 10 ?st = Some (c, st')" and n: "c = NULL \<longrightarrow> same_stores ?st st'"
      by blast
    from 1 r have "c = NULL" "trace st' = [Alloc K_ctx 12, Alloc K_xlatctx 42, Alloc K_buf 7,
        Free K_buf 7, Free K_xlatctx 42, Free K_ctx 12]" by simp_all
    with r n show "\<exists>st'. kdump_clone 2 10 ?st = Some (NULL, st') \<and> same_stores ?st st' \<and>
        trace st' = [Alloc K_ctx 12, Alloc K_xlatctx 42, Alloc K_buf 7, Free K_buf 7,
          Free K_xlatctx 42, Free K_ctx 12]" by blast
  next
    let ?st = "ex_state [8, 4] [6, 8] [5, 9] ?bs [Some 12, Some 42, Some 7, Some 13]"
    have a: "clone_allocs_succeed (per_ctx_size ?s) ?st"
      by (simp add: clone_allocs_succeed_def mallocs_succeed_def used_slots_def ex_state_def
          numeral_2_eq_2)
    have 1: "map_option fst (kdump_clone 2 10 ?st) = Some 12"
      by (simp add: clone_defs)
    from kdump_clone_all_or_nothing [OF og s len dd xl] a obtain c st' y where
      r: "kdump_clone 2 10 ?st = Some (c, st')" and c: "c \<noteq> NULL"
      and y: "ctxs st' = (ctxs ?st)(c \<mapsto> y)" "length (data y) = 2"
        "\<forall>j<2. per_ctx_size ?s ! j \<noteq> 0 \<longrightarrow>
              data y ! j \<noteq> NULL \<and> bufs ?st (data y ! j) = None \<and>
              bufs st' (data y ! j) = Some (replicate (per_ctx_size ?s ! j) None)"
      and sh: "shareds st' = (shareds ?st)(shared (ex_ctx 40 [6, 8]) \<mapsto>
          ?s\<lparr>refcnt := refcnt ?s + 1, ctx := c # ctx ?s\<rparr>)"
      by blast
    from 1 r have c12: "c = 12" by simp
    have 2: "Option.bind (kdump_clone 2 10 ?st) (\<lambda>r. get_data 12 0 (snd r)) = Some 7"
      "Option.bind (kdump_clone 2 10 ?st) (\<lambda>r. get_data 12 1 (snd r)) = Some 13"
      by (simp_all add: clone_defs)
    with r have g: "get_data 12 0 st' = Some 7" "get_data 12 1 st' = Some 13" by simp_all
    with y(1,2) c12 have d: "data y ! 0 = 7" "data y ! 1 = 13"
      by (simp_all add: get_data_def)
    from y(3) d have "bufs st' 7 = Some (replicate 8 None)" "bufs st' 13 = Some (replicate 4 None)"
      by (auto simp: less_Suc_eq numeral_2_eq_2)
    moreover from sh c12 have "ctx_list 1 st' = Some [12, 11, 10]"
      by (simp add: ctx_list_def ex_ctx_def)
    ultimately show "\<exists>st'. kdump_clone 2 10 ?st = Some (12, st') \<and>
       get_data 12 0 st' = Some 7 \<and> get_data 12 1 st' = Some 13 \<and>
       bufs st' 7 = Some (replicate 8 None) \<and> bufs st' 13 = Some (replicate 4 None) \<and>
       ctx_list 1 st' = Some [12, 11, 10]"
      using r c12 g by blast
  }
qed

text \<open>
  C10. A context returned by \<open>kdump_clone\<close> is another object than the original, which is
  left as it was. Its error channel is the freshly initialised one of its own allocation
  (capacity \<open>ERRBUF\<close>, empty message), its coordinate-system handle is a new object with
  one reference, different from the live handle of the original, and at every used slot
  index it holds a buffer that was not live before the call, different from the live
  buffer of the original at that index; the contents of the new buffer are indeterminate
  (nothing is copied into it) and the original's buffer is untouched.
\<close>

theorem kdump_clone_private_state:
  assumes og: "ctxs st orig = Some og" and s: "shareds st (shared og) = Some s"
    and len: "length (per_ctx_size s) = n"
    and dd: "dicts st (dict og) = Some dd" and xl: "xlats st (xlat og) = Some xl"
    and r: "kdump_clone n orig st = Some (c, st')" and c: "c \<noteq> NULL"
  shows "c \<noteq> orig \<and> ctxs st' orig = Some og \<and>
     (\<exists>y. ctxs st' c = Some y \<and>
        err y = \<lparr>bufsz = ERRBUF, msg = []\<rparr> \<and>
        xlatctx y \<noteq> NULL \<and> xlatctxs st (xlatctx y) = None \<and>
        xlatctxs st' (xlatctx y) = Some 1 \<and>
        (xlatctxs st (xlatctx og) \<noteq> None \<longrightarrow>
           xlatctx y \<noteq> xlatctx og \<and> xlatctxs st' (xlatctx og) = xlatctxs st (xlatctx og)) \<and>
        (\<forall>j<n. per_ctx_size s ! j \<noteq> 0 \<longrightarrow>
           data y ! j \<noteq> NULL \<and> bufs st (data y ! j) = None \<and>
           bufs st' (data y ! j) = Some (replicate (per_ctx_size s ! j) None) \<and>
           (bufs st (data og ! j) \<noteq> None \<longrightarrow>
              data y ! j \<noteq> data og ! j \<and> bufs st' (data og ! j) = bufs st (data og ! j))))"
  using og s len dd xl
proof (cases rule: kdump_clone_cases)
  case (fail st1)
  with r c show ?thesis by simp
next
  case (ok c1 x d st1)
  from ok(1) r have e: "c1 = c" "st1 = st'" by simp_all
  note k = ok(2-) [unfolded e]
  let ?y = "(fresh_ctx n x)\<lparr>data := d, shared := shared og, dict := dict og, xlat := xlat og\<rparr>"
  have y: "data ?y = d" "xlatctx ?y = x" "err ?y = \<lparr>bufsz = ERRBUF, msg = []\<rparr>"
    by (simp_all add: fresh_ctx_def)
  from k(3) og have ne: "c \<noteq> orig" by auto
  with k(5) og have o': "ctxs st' orig = Some og" by simp
  have "\<exists>y. ctxs st' c = Some y \<and>
        err y = \<lparr>bufsz = ERRBUF, msg = []\<rparr> \<and>
        xlatctx y \<noteq> NULL \<and> xlatctxs st (xlatctx y) = None \<and>
        xlatctxs st' (xlatctx y) = Some 1 \<and>
        (xlatctxs st (xlatctx og) \<noteq> None \<longrightarrow>
           xlatctx y \<noteq> xlatctx og \<and> xlatctxs st' (xlatctx og) = xlatctxs st (xlatctx og)) \<and>
        (\<forall>j<n. per_ctx_size s ! j \<noteq> 0 \<longrightarrow>
           data y ! j \<noteq> NULL \<and> bufs st (data y ! j) = None \<and>
           bufs st' (data y ! j) = Some (replicate (per_ctx_size s ! j) None) \<and>
           (bufs st (data og ! j) \<noteq> None \<longrightarrow>
              data y ! j \<noteq> data og ! j \<and> bufs st' (data og ! j) = bufs st (data og ! j)))"
  proof (intro exI [of _ ?y] conjI)
    show "ctxs st' c = Some ?y" using k(5) by simp
    show "err ?y = \<lparr>bufsz = ERRBUF, msg = []\<rparr>" by (rule y(3))
    show "xlatctx ?y \<noteq> NULL" unfolding y by (rule k(2))
    show "xlatctxs st (xlatctx ?y) = None" unfolding y by (rule k(4))
    show "xlatctxs st' (xlatctx ?y) = Some 1" unfolding y using k(15) by simp
    show "xlatctxs st (xlatctx og) \<noteq> None \<longrightarrow>
           xlatctx ?y \<noteq> xlatctx og \<and> xlatctxs st' (xlatctx og) = xlatctxs st (xlatctx og)"
      unfolding y using k(4,15) by auto
    show "\<forall>j<n. per_ctx_size s ! j \<noteq> 0 \<longrightarrow>
           data ?y ! j \<noteq> NULL \<and> bufs st (data ?y ! j) = None \<and>
           bufs st' (data ?y ! j) = Some (replicate (per_ctx_size s ! j) None) \<and>
           (bufs st (data og ! j) \<noteq> None \<longrightarrow>
              data ?y ! j \<noteq> data og ! j \<and> bufs st' (data og ! j) = bufs st (data og ! j))"
      unfolding y
    proof (intro allI impI)
      fix j assume j: "j < n" "per_ctx_size s ! j \<noteq> 0"
      with k(8) have 1: "d ! j \<noteq> NULL" "bufs st (d ! j) = None"
        "bufs st' (d ! j) = Some (replicate (per_ctx_size s ! j) None)" by simp_all
      have 2: "d ! j \<noteq> data og ! j \<and> bufs st' (data og ! j) = bufs st (data og ! j)"
        if "bufs st (data og ! j) \<noteq> None"
        using that 1(2) k(10) by auto
      from 1 2 show "d ! j \<noteq> NULL \<and> bufs st (d ! j) = None \<and>
           bufs st' (d ! j) = Some (replicate (per_ctx_size s ! j) None) \<and>
           (bufs st (data og ! j) \<noteq> None \<longrightarrow>
              d ! j \<noteq> data og ! j \<and> bufs st' (data og ! j) = bufs st (data og ! j))"
        by blast
    qed
  qed
  with ne o' show ?thesis by blast
qed

theorem kdump_clone_private_state_witness:
  "\<exists>st' y. kdump_clone 2 10
       (ex_state [8, 0] [6, 0] [5, 0] [5 \<mapsto> replicate 8 (Some 1), 6 \<mapsto> replicate 8 (Some 2)]
          [Some 12, Some 42, Some 7]) = Some (12, st') \<and>
     ctxs st' 12 = Some y \<and> data y ! 0 \<noteq> 6 \<and> xlatctx y \<noteq> 40 \<and>
     bufs st' (data y ! 0) = Some (replicate 8 None) \<and> bufs st' 6 = Some (replicate 8 (Some 2))"
proof -
  let ?st = "ex_state [8, 0] [6, 0] [5, 0] [5 \<mapsto> replicate 8 (Some 1), 6 \<mapsto> replicate 8 (Some 2)]
          [Some 12, Some 42, Some 7]"
  let ?s = "\<lparr>refcnt = 2, ctx = [11, 10], per_ctx_size = [8, 0]\<rparr>"
  have og: "ctxs ?st 10 = Some (ex_ctx 40 [6, 0])" by (simp add: ex_state_def)
  have s: "shareds ?st (shared (ex_ctx 40 [6, 0])) = Some ?s"
    by (simp add: ex_state_def ex_ctx_def)
  have len: "length (per_ctx_size ?s) = 2" by simp
  have dd: "dicts ?st (dict (ex_ctx 40 [6, 0]))
      = Some \<lparr>dict_refcnt = 2, dict_shared = 1, cache_size_set = True\<rparr>"
    by (simp add: ex_state_def ex_ctx_def)
  have xl: "xlats ?st (xlat (ex_ctx 40 [6, 0])) = Some \<lparr>xlat_refcnt = 2, xlat_ctx = [11, 10]\<rparr>"
    by (simp add: ex_state_def ex_ctx_def)
  have "map_option fst (kdump_clone 2 10 ?st) = Some 12" by (simp add: clone_defs)
  then obtain st' where r: "kdump_clone 2 10 ?st = Some (12, st')" by auto
  have b: "bufs ?st (data (ex_ctx 40 [6, 0]) ! 0) = Some (replicate 8 (Some 2))"
    "xlatctxs ?st (xlatctx (ex_ctx 40 [6, 0])) \<noteq> None" "xlatctx (ex_ctx 40 [6, 0]) = 40"
    "data (ex_ctx 40 [6, 0]) ! 0 = 6" "per_ctx_size ?s ! 0 \<noteq> 0"
    by (simp_all add: ex_state_def ex_ctx_def)
  have c: "(12::nat) \<noteq> NULL" by simp
  from kdump_clone_private_state [OF og s len dd xl r c] obtain y where
    y: "ctxs st' 12 = Some y"
      "xlatctxs ?st (xlatctx (ex_ctx 40 [6, 0])) \<noteq> None \<longrightarrow>
         xlatctx y \<noteq> xlatctx (ex_ctx 40 [6, 0]) \<and>
         xlatctxs st' (xlatctx (ex_ctx 40 [6, 0])) = xlatctxs ?st (xlatctx (ex_ctx 40 [6, 0]))"
      "\<forall>j<2. per_ctx_size ?s ! j \<noteq> 0 \<longrightarrow>
           data y ! j \<noteq> NULL \<and> bufs ?st (data y ! j) = None \<and>
           bufs st' (data y ! j) = Some (replicate (per_ctx_size ?s ! j) None) \<and>
           (bufs ?st (data (ex_ctx 40 [6, 0]) ! j) \<noteq> None \<longrightarrow>
              data y ! j \<noteq> data (ex_ctx 40 [6, 0]) ! j \<and>
              bufs st' (data (ex_ctx 40 [6, 0]) ! j) = bufs ?st (data (ex_ctx 40 [6, 0]) ! j))"
    by blast
  from y(2) b(2,3) have 1: "xlatctx y \<noteq> 40" by simp
  from y(3) b(5) have
    "bufs st' (data y ! 0) = Some (replicate (per_ctx_size ?s ! 0) None) \<and>
     (bufs ?st (data (ex_ctx 40 [6, 0]) ! 0) \<noteq> None \<longrightarrow>
        data y ! 0 \<noteq> data (ex_ctx 40 [6, 0]) ! 0 \<and>
        bufs st' (data (ex_ctx 40 [6, 0]) ! 0) = bufs ?st (data (ex_ctx 40 [6, 0]) ! 0))"
    by simp
  with b(1,4) have 2: "bufs st' (data y ! 0) = Some (replicate 8 None)" "data y ! 0 \<noteq> 6"
    "bufs st' 6 = Some (replicate 8 (Some 2))" by simp_all
  from r y(1) 1 2 show ?thesis by blast
qed

text \<open>
  C3 (amended). In every state reached from the empty state by calls of \<open>kdump_new\<close>,
  \<open>kdump_clone\<close>, \<open>per_ctx_alloc\<close>, and \<open>per_ctx_free\<close> of a slot in use, whether the calls
  succeed or fail, every context on the list of a registry holds a non-null pointer to a
  live buffer of the recorded size at every slot index whose entry of the size table is
  nonzero. (The converse does not hold: an index whose entry is zero may hold a non-null
  pointer.)
\<close>

theorem slots_hold_buffers:
  assumes "slot_run n xs (init_state al rl) = Some st"
  shows "holds_buffers n st"
  using slot_run_inv [OF slots_inv_init assms] by (rule slots_inv_holds)


theorem slots_hold_buffers_witness:
  "\<exists>st. slot_run 2 [Op_new, Op_alloc 1 8, Op_new, Op_clone 10]
          (init_state [Some 10, Some 40, Some 1, Some 2, Some 3, Some 5, None,
                       Some 11, Some 41, Some 6] [True]) = Some st \<and>
        holds_buffers 2 st \<and> get_data 11 0 st = Some 6"
proof -
  have "Option.bind (slot_run 2 [Op_new, Op_alloc 1 8, Op_new, Op_clone 10]
          (init_state [Some 10, Some 40, Some 1, Some 2, Some 3, Some 5, None,
                       Some 11, Some 41, Some 6] [True])) (get_data 11 0) = Some 6"
    by code_simp
  from bind_SomeD [OF this] obtain st where
    st: "slot_run 2 [Op_new, Op_alloc 1 8, Op_new, Op_clone 10]
          (init_state [Some 10, Some 40, Some 1, Some 2, Some 3, Some 5, None,
                       Some 11, Some 41, Some 6] [True]) = Some st"
      "get_data 11 0 st = Some 6"
    by blast
  from slots_hold_buffers [OF st(1)] st show ?thesis by blast
qed

text \<open>
  The claim as stated fails in its other direction: after \<open>kdump_new\<close>, a successful
  \<open>per_ctx_alloc\<close> of 8 bytes and a \<open>per_ctx_free\<close> of the slot, context 10 is attached
  to registry 1, entry 0 of the size table is zero, and the context holds the non-null
  pointer 5 at index 0.
\<close>

theorem slots_exactly_counterexample:
  "Option.bind (slot_run 2 [Op_new, Op_alloc 1 8, Op_free 1 0]
       (init_state [Some 10, Some 40, Some 1, Some 2, Some 3, Some 5] [True])) (ctx_list 1)
     = Some [10] \<and>
   Option.bind (slot_run 2 [Op_new, Op_alloc 1 8, Op_free 1 0]
       (init_state [Some 10, Some 40, Some 1, Some 2, Some 3, Some 5] [True])) (size_table 1)
     = Some [0, 0] \<and>
   Option.bind (slot_run 2 [Op_new, Op_alloc 1 8, Op_free 1 0]
       (init_state [Some 10, Some 40, Some 1, Some 2, Some 3, Some 5] [True])) (get_data 10 0)
     = Some 5"
  by code_simp



text \<open>
  Why a run releases only what it has acquired: \<open>shared_decref\<close> right after \<open>kdump_new\<close>
  gives up the reference that belongs to context 10. The count drops to zero and the
  registry is freed, while context 10 still points to it.
\<close>

lemma ex_release_not_acquired:
  "Option.bind (kdump_new 2 (init_state [Some 10, Some 40, Some 1, Some 2, Some 3] [True]))
     (\<lambda>r. Option.bind (shared_decref 1 (snd r))
        (\<lambda>q. Some (fst r, fst q, ctx_list 1 (snd q), map_option shared (ctxs (snd q) 10))))
   = Some (10, 0, None, Some 1)"
  by code_simp

end
